theory Spec2Isabelle
  imports Complex_Main
begin

section \<open>The dashboard table (ImageTable.tsx, Badge.tsx)\<close>

subsection \<open>The report record\<close>

text \<open>
  \<^verbatim>\<open>export interface ImageRecord { page: string; hubspot_folder: string; ... }\<close>
  Seven fields, each of TypeScript type \<^verbatim>\<open>string\<close> (not optional, no union with null
  or undefined). A TypeScript string is modelled as a \<^typ>\<open>string\<close>; the only string
  operations the component uses are truthiness (non-emptiness) and concatenation.
\<close>

record ImageRecord =
  page :: string
  hubspot_folder :: string
  hubspot_path :: string
  src :: string
  alt :: string
  title :: string
  nearest_heading :: string

text \<open>
  The interface's members in declaration order, each with the accessor that reads it.
  Every accessor has type \<^typ>\<open>ImageRecord \<Rightarrow> string\<close>.
\<close>

definition ImageRecord_members :: "(string \<times> (ImageRecord \<Rightarrow> string)) list" where
  "ImageRecord_members =
     [(''page'', page),
      (''hubspot_folder'', hubspot_folder),
      (''hubspot_path'', hubspot_path),
      (''src'', src),
      (''alt'', alt),
      (''title'', title),
      (''nearest_heading'', nearest_heading)]"

text \<open>
  The column order of the report file, as the specification words it:
  \<^verbatim>\<open>page, hubspot_folder, hubspot_path, src, alt, title, nearest_heading\<close>.
\<close>

definition report_columns :: "string list" where
  "report_columns =
     [''page'', ''hubspot_folder'', ''hubspot_path'', ''src'', ''alt'', ''title'',
      ''nearest_heading'']"

subsection \<open>React elements\<close>

text \<open>
  A JSX expression evaluates to an element: a type (an HTML tag or a component of a
  library, by name), its props and its children. A prop is a string, a number or a
  reference to a module constant (\<^verbatim>\<open>variants={rowVariants}\<close>).
\<close>

datatype prop_value = PStr string | PNum nat | PConst string

datatype vnode = Element string "(string \<times> prop_value) list" "vnode list" | Text string

text \<open>The em dash U+2014 of the source's \<^verbatim>\<open>"\<emdash>"\<close> literals, as its UTF-8 bytes.\<close>

definition em_dash :: string where
  "em_dash = [CHR 0xE2, CHR 0x80, CHR 0x94]"

text \<open>JavaScript's \<^verbatim>\<open>a || b\<close> on strings: \<^verbatim>\<open>a\<close> unless it is falsy, that is empty.\<close>

definition js_or :: "string \<Rightarrow> string \<Rightarrow> string" where
  "js_or a b = (if a \<noteq> [] then a else b)"

text \<open>Decimal rendering of an array index inside a template literal.\<close>

fun digits :: "nat \<Rightarrow> string" where
  "digits n =
     (if n < 10 then [char_of (48 + n)] else digits (n div 10) @ [char_of (48 + n mod 10)])"

text \<open>
  \<^verbatim>\<open>cn\<close> is imported from \<^verbatim>\<open>../lib/utils\<close>, which is not among the sources: it is a
  parameter of every component that calls it. Its arguments are class names, some of
  them possibly \<^verbatim>\<open>undefined\<close> (\<open>None\<close>).
\<close>

type_synonym class_names = "string option list \<Rightarrow> string"

text \<open>
  \<^verbatim>\<open>export function Badge({ className, children }: BadgeProps)\<close>
\<close>

definition Badge :: "class_names \<Rightarrow> string option \<Rightarrow> vnode list \<Rightarrow> vnode" where
  "Badge cn className children =
     Element ''span''
       [(''className'',
         PStr (cn [Some ''inline-flex items-center rounded-full px-3 py-0.5 text-xs font-semibold'',
                   className]))]
       children"

definition columns :: "(string \<times> string) list" where
  "columns =
     [(''page'', ''Page''),
      (''hubspot_folder'', ''HubSpot Folder''),
      (''hubspot_path'', ''HubSpot Path''),
      (''nearest_heading'', ''Section Heading''),
      (''alt'', ''Alt Text'')]"

subsection \<open>ImageTable over a store of objects\<close>

text \<open>
  The \<^verbatim>\<open>images\<close> prop is an array of references to objects: a JavaScript callee
  can assign to the fields of the objects it is handed. The store maps a reference to
  the object's current fields; every function below takes the store and returns it, so
  that what rendering does to the objects is part of its result.
\<close>

type_synonym ref = nat
type_synonym store = "ref \<Rightarrow> ImageRecord"

text \<open>
  The callback of \<^verbatim>\<open>images.map((image, index) => <motion.tr ...> ... </motion.tr>)\<close>:
  it reads fields of \<^verbatim>\<open>image\<close> (here \<open>img\<close>) and assigns to nothing.
\<close>

definition image_row :: "class_names \<Rightarrow> ref \<Rightarrow> nat \<Rightarrow> store \<Rightarrow> vnode \<times> store" where
  "image_row cn img index s =
     (Element ''motion.tr''
        [(''key'', PStr (page (s img) @ ''-'' @ src (s img) @ ''-'' @ digits index)),
         (''custom'', PNum index),
         (''initial'', PStr ''hidden''),
         (''animate'', PStr ''visible''),
         (''variants'', PConst ''rowVariants''),
         (''className'',
          PStr ''border-b text-sm text-slate-600 transition-colors hover:bg-slate-50/70'')]
        [Element ''td'' [(''className'', PStr ''p-4 font-medium text-slate-900'')]
           [Text (page (s img))],
         Element ''td'' [(''className'', PStr ''p-4'')]
           [Badge cn (Some ''bg-slate-900/80 text-white'')
              [Text (js_or (hubspot_folder (s img)) em_dash)]],
         Element ''td'' [(''className'', PStr ''p-4'')]
           [Element ''span'' [(''className'', PStr ''font-mono text-xs text-slate-500'')]
              [Text (hubspot_path (s img))]],
         Element ''td'' [(''className'', PStr ''p-4'')]
           [Text (js_or (nearest_heading (s img)) em_dash)],
         Element ''td'' [(''className'', PStr ''p-4'')]
           [Text (js_or (alt (s img)) em_dash)],
         Element ''td'' [(''className'', PStr ''p-4'')]
           [Element ''a''
              [(''href'', PStr (src (s img))),
               (''target'', PStr ''_blank''),
               (''rel'', PStr ''noreferrer''),
               (''className'',
                PStr (cn [Some ''inline-flex items-center gap-2 rounded-full border border-slate-200 px-3 py-1 text-xs font-semibold text-slate-600'',
                          Some ''transition-colors hover:border-slate-400 hover:text-slate-900'']))]
              [Text ''Open'',
               Element ''ExternalLink'' [(''className'', PStr ''h-3 w-3'')] []]]],
      s)"

text \<open>\<^verbatim>\<open>images.map(callback)\<close>: the callback on each element in order, with its index.\<close>

fun map_rows :: "class_names \<Rightarrow> nat \<Rightarrow> ref list \<Rightarrow> store \<Rightarrow> vnode list \<times> store" where
  "map_rows cn index [] s = ([], s)"
| "map_rows cn index (img # rest) s =
     (let (row, s1) = image_row cn img index s;
          (rows, s2) = map_rows cn (Suc index) rest s1
      in (row # rows, s2))"

definition ImageTable :: "class_names \<Rightarrow> ref list \<Rightarrow> store \<Rightarrow> vnode \<times> store" where
  "ImageTable cn images s =
     (let (body, s1) =
            (if length images = 0
             then ([Element ''tr'' []
                      [Element ''td''
                         [(''colSpan'', PNum (length columns + 1)),
                          (''className'', PStr ''p-6 text-center'')]
                         [Text ''No images matched the current filters.'']]],
                   s)
             else map_rows cn 0 images s)
      in (Element ''div''
            [(''className'', PStr ''rounded-xl border border-slate-200 bg-white shadow-sm'')]
            [Element ''div'' [(''className'', PStr ''relative w-full overflow-auto'')]
               [Element ''table'' [(''className'', PStr ''w-full min-w-[700px]'')]
                  [Element ''thead'' []
                     [Element ''tr''
                        [(''className'',
                          PStr ''border-b bg-slate-50/80 text-left text-sm font-semibold text-slate-500'')]
                        (map (\<lambda>(key, label).
                                Element ''th'' [(''key'', PStr key), (''className'', PStr ''p-4'')]
                                  [Text label])
                             columns
                         @ [Element ''th''
                              [(''className'', PStr ''p-4 text-sm font-semibold text-slate-500'')]
                              [Text ''Image'']])],
                   Element ''tbody'' [] body]]],
          s1))"

subsection \<open>Reading a rendered table\<close>

text \<open>What a cell shows: the concatenated text of the element, as the DOM's textContent.\<close>

fun text_content :: "vnode \<Rightarrow> string" where
  "text_content (Text t) = t"
| "text_content (Element tag props children) = concat (map text_content children)"

fun children_of :: "vnode \<Rightarrow> vnode list" where
  "children_of (Element tag props children) = children"
| "children_of (Text t) = []"

text \<open>The rows of the table body: div, div, table, then the second child (tbody).\<close>

definition body_rows :: "vnode \<Rightarrow> vnode list" where
  "body_rows rendered =
     (case children_of rendered of
        [wrapper] \<Rightarrow>
          (case children_of wrapper of
             [table] \<Rightarrow>
               (case children_of table of
                  [thead, tbody] \<Rightarrow> children_of tbody
                | _ \<Rightarrow> [])
           | _ \<Rightarrow> [])
      | _ \<Rightarrow> [])"

definition cell_texts :: "vnode \<Rightarrow> string list" where
  "cell_texts row = map text_content (children_of row)"

section \<open>The orchestration wrapper (analytics/extract\_site\_images.sh)\<close>

text \<open>
  The script runs simple commands one after the other under \<^verbatim>\<open>set -e\<close>. A command is
  the \<^verbatim>\<open>echo\<close> builtin with its one argument, or \<^verbatim>\<open>python3\<close> with its argument
  words. What a command does is outside the script: \<open>exec\<close> gives its exit status and
  the world it leaves, from the world it starts in.
\<close>

datatype command = Echo string | Python3 "string list"

type_synonym 'w exec = "command \<Rightarrow> 'w \<Rightarrow> nat \<times> 'w"

text \<open>
  \<^verbatim>\<open>set -e\<close>: the shell exits at the first command whose status is not zero, with
  that status; a script that runs to its end exits with the status of its last command.
  The result is the exit status, the commands that ran (each with its status, in
  order) and the final world.
\<close>

fun run_set_e :: "'w exec \<Rightarrow> command list \<Rightarrow> 'w \<Rightarrow> nat \<times> (command \<times> nat) list \<times> 'w" where
  "run_set_e exec [] w = (0, [], w)"
| "run_set_e exec (c # cs) w =
     (let (status, w1) = exec c w
      in if status \<noteq> 0 then (status, [(c, status)], w1)
         else (let (status', trace, w2) = run_set_e exec cs w1
               in (status', (c, status) # trace, w2)))"

text \<open>
  \<^verbatim>\<open>SITE_URL="${1:-https://automation.broadcom.com/}"\<close>: the default when the first
  positional parameter is unset or empty.
\<close>

definition SITE_URL :: "string list \<Rightarrow> string" where
  "SITE_URL argv =
     (case argv of
        [] \<Rightarrow> ''https://automation.broadcom.com/''
      | a # _ \<Rightarrow> if a = [] then ''https://automation.broadcom.com/'' else a)"

definition MIRROR_DIR :: string where
  "MIRROR_DIR = ''site_mirror''"

definition CSV_OUT :: string where
  "CSV_OUT = ''analytics/ui/public/image-report.csv''"

text \<open>Line 11, the crawl step, and line 15, the extract step.\<close>

definition crawl_step :: "string list \<Rightarrow> command" where
  "crawl_step argv =
     Python3 [''scripts/crawl_site.py'', SITE_URL argv, ''--output'', MIRROR_DIR,
              ''--max-pages'', ''50'', ''--delay'', ''1.5'']"

definition extract_step :: command where
  "extract_step =
     Python3 [''scripts/extract_images.py'', MIRROR_DIR, ''--csv-out'', CSV_OUT, ''--verbose'']"

text \<open>The check mark U+2705 of line 18, as its UTF-8 bytes.\<close>

definition check_mark :: string where
  "check_mark = [CHR 0xE2, CHR 0x9C, CHR 0x85]"

text \<open>The simple commands of the script, lines 10 to 19, in order.\<close>

definition wrapper_commands :: "string list \<Rightarrow> command list" where
  "wrapper_commands argv =
     [Echo (''Step 1: Crawling '' @ SITE_URL argv @ '' (one-time, respectful crawl)...''),
      crawl_step argv,
      Echo [],
      Echo ''Step 2: Extracting images from mirrored pages...'',
      extract_step,
      Echo [],
      Echo (check_mark @ '' Complete! Images extracted to '' @ CSV_OUT),
      Echo (''   Run '' @ [CHR 0x27] @ ''cd analytics/ui && npm run dev'' @ [CHR 0x27]
            @ '' to view in dashboard'')]"

definition extract_site_images ::
  "'w exec \<Rightarrow> string list \<Rightarrow> 'w \<Rightarrow> nat \<times> (command \<times> nat) list \<times> 'w" where
  "extract_site_images exec argv w = run_set_e exec (wrapper_commands argv) w"

text \<open>
  The world a list of commands leaves when each of them has run, whatever its status:
  the world in which the command after them starts.
\<close>

definition world_after :: "'w exec \<Rightarrow> command list \<Rightarrow> 'w \<Rightarrow> 'w" where
  "world_after exec cs w = fold (\<lambda>c w'. snd (exec c w')) cs w"

text \<open>
  The status \<open>exec\<close> gives the command at position \<open>i\<close> of the script (from 0), run in
  the world the commands before it leave.
\<close>

definition status_at :: "'w exec \<Rightarrow> string list \<Rightarrow> 'w \<Rightarrow> nat \<Rightarrow> nat" where
  "status_at exec argv w i =
     fst (exec (wrapper_commands argv ! i)
            (world_after exec (take i (wrapper_commands argv)) w))"

text \<open>The external programs among the commands that ran, in the order they ran.\<close>

fun is_python3 :: "command \<Rightarrow> bool" where
  "is_python3 (Python3 args) = True"
| "is_python3 (Echo line) = False"

definition steps_run :: "(command \<times> nat) list \<Rightarrow> command list" where
  "steps_run trace = filter is_python3 (map fst trace)"

section \<open>The workflow action (main)\<close>

text \<open>
  The values a field of \<^verbatim>\<open>event.inputFields\<close> can hold: what JSON carries, and
  \<^verbatim>\<open>undefined\<close> for a key that is not there. An object or an array is always truthy.
\<close>

datatype js_value =
  JUndefined | JNull | JBoolean bool | JNumber real | JString string | JObject

fun truthy :: "js_value \<Rightarrow> bool" where
  "truthy JUndefined = False"
| "truthy JNull = False"
| "truthy (JBoolean b) = b"
| "truthy (JNumber x) = (x \<noteq> 0)"
| "truthy (JString s) = (s \<noteq> [])"
| "truthy JObject = True"

record event =
  inputFields :: "string \<Rightarrow> js_value option"

text \<open>\<^verbatim>\<open>obj[key]\<close>: \<^verbatim>\<open>undefined\<close> when the object has no such property.\<close>

definition get_field :: "(string \<Rightarrow> js_value option) \<Rightarrow> string \<Rightarrow> js_value" where
  "get_field obj key = (case obj key of None \<Rightarrow> JUndefined | Some v \<Rightarrow> v)"

datatype js_error = Error string

record output_fields =
  enriched_revenue :: int

record callback_argument =
  outputFields :: output_fields

text \<open>
  \<^verbatim>\<open>Math.random()\<close> and the product of two Numbers belong to the runtime: \<open>random\<close> is
  the Number the call returns and \<open>multiply\<close> the runtime's multiplication. The result is
  how the function ends (\<open>Inl\<close> the error thrown, \<open>Inr\<close> a normal return) and the
  arguments of the calls to \<^verbatim>\<open>callback\<close>, in order.
\<close>

definition main ::
  "real \<Rightarrow> (real \<Rightarrow> real \<Rightarrow> real) \<Rightarrow> event \<Rightarrow> (js_error + unit) \<times> callback_argument list" where
  "main random multiply event =
     (let companyDomain = get_field (inputFields event) ''company_domain''
      in if \<not> truthy companyDomain then (Inl (Error ''Missing company domain''), [])
         else (let revenue = \<lfloor>multiply random 1000000\<rfloor>
               in (Inr (), [\<lparr>outputFields = \<lparr>enriched_revenue = revenue\<rparr>\<rparr>])))"

text \<open>
  The Numbers of JavaScript are the IEEE 754 binary64 values. The finite ones are the
  reals \<open>m * 2 ^ e\<close> with \<open>|m| < 2 ^ 53\<close> and \<open>-1074 \<le> e \<le> 971\<close>.
\<close>

definition is_double :: "real \<Rightarrow> bool" where
  "is_double x \<longleftrightarrow>
     (\<exists>(m::int) (k::nat). \<bar>m\<bar> < 2 ^ 53 \<and>
        ((k \<le> 1074 \<and> x = of_int m / 2 ^ k) \<or> (k \<le> 971 \<and> x = of_int m * 2 ^ k)))"

text \<open>
  An arithmetic operation returns the double nearest to the exact result (ties are
  broken to the even significand; no property below depends on how).
\<close>

definition rounds_to :: "real \<Rightarrow> real \<Rightarrow> bool" where
  "rounds_to x y \<longleftrightarrow> is_double y \<and> (\<forall>z. is_double z \<longrightarrow> \<bar>y - x\<bar> \<le> \<bar>z - x\<bar>)"

section \<open>The extractor's heading context (scripts/extract\_images.py)\<close>

text \<open>
  Modelled from the spec: scripts/extract\_images.py is not among the sources. The
  DocumentNode of the data model: "tree node with kind Element or Text, tagName,
  attributes, children: ordered sequence of DocumentNode, textContent", as the closed
  tagged variant of the design notes (Element with tag, attributes and children; Text
  with content).
\<close>

datatype DocumentNode =
  ElementNode string "(string \<times> string) list" "DocumentNode list"
| TextNode string

text \<open>
  Modelled from the spec: the "text content" of a node (the spec names it and does not
  define it): the text of its descendants in document order, as the DOM's textContent.
\<close>

fun node_text :: "DocumentNode \<Rightarrow> string" where
  "node_text (TextNode content) = content"
| "node_text (ElementNode tag attributes children) = concat (map node_text children)"

text \<open>
  Modelled from the spec: "trimmed" text. White space is the space, the tab, the line
  feed, the vertical tab, the form feed and the carriage return.
\<close>

definition is_space :: "char \<Rightarrow> bool" where
  "is_space c \<longleftrightarrow> c \<in> {CHR '' '', CHR 0x09, CHR 0x0A, CHR 0x0B, CHR 0x0C, CHR 0x0D}"

definition trim :: "string \<Rightarrow> string" where
  "trim s = rev (dropWhile is_space (rev (dropWhile is_space s)))"

text \<open>
  Modelled from the spec: "heading element (levels 1-6)" and "image element"; tag names
  as the parser gives them, in lower case.
\<close>

fun is_heading :: "DocumentNode \<Rightarrow> bool" where
  "is_heading (ElementNode tag attributes children) =
     (tag \<in> {''h1'', ''h2'', ''h3'', ''h4'', ''h5'', ''h6''})"
| "is_heading (TextNode content) = False"

fun is_image :: "DocumentNode \<Rightarrow> bool" where
  "is_image (ElementNode tag attributes children) = (tag = ''img'')"
| "is_image (TextNode content) = False"

text \<open>
  Modelled from the spec: "Algorithm: single pre-order walk maintaining 'last heading
  text seen so far'; whenever an image element is visited, snapshot that running
  value." The state of the walk is the running value and the snapshots taken so far;
  \<open>visit\<close> is what the walk does at one node, before it descends into the children.
\<close>

definition visit :: "DocumentNode \<Rightarrow> string \<times> string list \<Rightarrow> string \<times> string list" where
  "visit node st =
     (let (last_heading, snapshots) = st;
          last_heading' = (if is_heading node then trim (node_text node) else last_heading)
      in (last_heading',
          if is_image node then snapshots @ [last_heading'] else snapshots))"

fun walk :: "DocumentNode \<Rightarrow> string \<times> string list \<Rightarrow> string \<times> string list"
  and walk_children :: "DocumentNode list \<Rightarrow> string \<times> string list \<Rightarrow> string \<times> string list"
where
  "walk (TextNode content) st = visit (TextNode content) st"
| "walk (ElementNode tag attributes children) st =
     walk_children children (visit (ElementNode tag attributes children) st)"
| "walk_children [] st = st"
| "walk_children (child # rest) st = walk_children rest (walk child st)"

text \<open>
  Modelled from the spec: the resolver's output, the nearestHeading of every image
  element in document order. Before any heading the running value is the empty string.
\<close>

definition nearest_headings :: "DocumentNode \<Rightarrow> string list" where
  "nearest_headings document = snd (walk document ([], []))"

text \<open>
  Modelled from the spec: "Output: for every image element, the trimmed text content
  of the nearest heading element (levels 1-6) that precedes it in a pre-order,
  depth-first traversal of the whole document. If no heading precedes an image, its
  nearestHeading is the empty string." \<open>preorder\<close> lists the nodes of the document in
  that traversal; \<open>heading_before\<close> reads the answer off the nodes that come before an
  image, the nearest first.
\<close>

fun preorder :: "DocumentNode \<Rightarrow> DocumentNode list" where
  "preorder (TextNode content) = [TextNode content]"
| "preorder (ElementNode tag attributes children) =
     ElementNode tag attributes children # concat (map preorder children)"

definition heading_before :: "DocumentNode list \<Rightarrow> string" where
  "heading_before earlier =
     (case filter is_heading (rev earlier) of
        [] \<Rightarrow> []
      | heading # _ \<Rightarrow> trim (node_text heading))"

definition image_positions :: "DocumentNode list \<Rightarrow> nat list" where
  "image_positions nodes = filter (\<lambda>i. is_image (nodes ! i)) [0 ..< length nodes]"

text \<open>
  The running value of the walk after the nodes \<open>earlier\<close>, when it was \<open>start\<close> before
  them: the text of the last heading among them, or \<open>start\<close> when there is none.
\<close>

definition running :: "string \<Rightarrow> DocumentNode list \<Rightarrow> string" where
  "running start earlier =
     (case filter is_heading (rev earlier) of
        [] \<Rightarrow> start
      | heading # _ \<Rightarrow> trim (node_text heading))"

section \<open>The crawler (scripts/crawl\_site.py)\<close>

subsection \<open>Canonical URL Normalizer\<close>

text \<open>
  Modelled from the spec: scripts/crawl\_site.py is not among the sources. A URL by its
  components, "scheme, host, normalized path", with the query and the fragment when it
  has them.
\<close>

record url =
  url_scheme :: string
  url_host :: string
  url_path :: string
  url_query :: "string option"
  url_fragment :: "string option"

text \<open>
  Modelled from the spec: "a possibly-relative URL string", after parsing: a relative
  reference has no scheme, and may have no host. A string that "cannot be parsed as a
  URL" has no such components; a discovered link is a \<open>reference option\<close>, \<open>None\<close> for
  such a string.
\<close>

record reference =
  ref_scheme :: "string option"
  ref_host :: "string option"
  ref_path :: string
  ref_query :: "string option"
  ref_fragment :: "string option"

text \<open>Modelled from the spec: an absolute URL, read as a reference again.\<close>

definition as_reference :: "url \<Rightarrow> reference" where
  "as_reference u =
     \<lparr>ref_scheme = Some (url_scheme u), ref_host = Some (url_host u),
      ref_path = url_path u, ref_query = url_query u, ref_fragment = url_fragment u\<rparr>"

text \<open>
  Modelled from the spec: "resolve relative references against base". The spec names no
  algorithm; this is the component-wise resolution of RFC 3986, section 5.2.2, with the
  path merge of section 5.2.3. Dot segments are left as they are written.
\<close>

definition merge_paths :: "string \<Rightarrow> string \<Rightarrow> string" where
  "merge_paths base_path ref_path' =
     (if base_path = [] then CHR ''/'' # ref_path'
      else rev (dropWhile (\<lambda>c. c \<noteq> CHR ''/'') (rev base_path)) @ ref_path')"

definition resolve :: "url \<Rightarrow> reference \<Rightarrow> url" where
  "resolve base r =
     (case ref_scheme r of
        Some s \<Rightarrow>
          \<lparr>url_scheme = s,
           url_host = (case ref_host r of Some h \<Rightarrow> h | None \<Rightarrow> []),
           url_path = ref_path r, url_query = ref_query r, url_fragment = ref_fragment r\<rparr>
      | None \<Rightarrow>
          (case ref_host r of
             Some h \<Rightarrow>
               \<lparr>url_scheme = url_scheme base, url_host = h,
                url_path = ref_path r, url_query = ref_query r,
                url_fragment = ref_fragment r\<rparr>
           | None \<Rightarrow>
               if ref_path r = [] then
                 \<lparr>url_scheme = url_scheme base, url_host = url_host base,
                  url_path = url_path base,
                  url_query = (case ref_query r of Some q \<Rightarrow> Some q | None \<Rightarrow> url_query base),
                  url_fragment = ref_fragment r\<rparr>
               else
                 \<lparr>url_scheme = url_scheme base, url_host = url_host base,
                  url_path = (if hd (ref_path r) = CHR ''/'' then ref_path r
                              else merge_paths (url_path base) (ref_path r)),
                  url_query = ref_query r,
                  url_fragment = ref_fragment r\<rparr>))"

text \<open>Modelled from the spec: "lower-case scheme and host" (the letters A to Z).\<close>

definition lower_char :: "char \<Rightarrow> char" where
  "lower_char c =
     (let n = of_char c :: nat in if 65 \<le> n \<and> n \<le> 90 then char_of (n + 32) else c)"

definition lower :: "string \<Rightarrow> string" where
  "lower s = map lower_char s"

text \<open>
  Modelled from the spec: the normalizer "normalizes trailing slashes" (system
  overview) and does "collapse a bare path "" to "/"" (component design): trailing
  slashes are dropped, and a path that is empty then is the root path.
\<close>

definition normalize_path :: "string \<Rightarrow> string" where
  "normalize_path p =
     (let q = rev (dropWhile (\<lambda>c. c = CHR ''/'') (rev p))
      in if q = [] then ''/'' else q)"

text \<open>
  Modelled from the spec: the CanonicalURL of an absolute URL: "lower-case scheme and
  host; drop URL fragments", the path normalized. The key is a \<open>url\<close> in this form.
\<close>

definition canonical :: "url \<Rightarrow> url" where
  "canonical u =
     \<lparr>url_scheme = lower (url_scheme u), url_host = lower (url_host u),
      url_path = normalize_path (url_path u), url_query = url_query u,
      url_fragment = None\<rparr>"

datatype crawl_error = InvalidURL | FetchFailed

text \<open>
  Modelled from the spec: the Canonical URL Normalizer. "Input: a possibly-relative URL
  string and the base URL of the page it was found on. Output: (CanonicalURL,
  absoluteURLString). Fails with InvalidURL when the string cannot be parsed as a URL."
\<close>

definition normalize_url :: "url \<Rightarrow> reference option \<Rightarrow> crawl_error + url \<times> url" where
  "normalize_url base link =
     (case link of
        None \<Rightarrow> Inl InvalidURL
      | Some r \<Rightarrow> (let absolute = resolve base r in Inr (canonical absolute, absolute)))"

text \<open>The key alone, when there is one.\<close>

definition canonical_key :: "url \<Rightarrow> reference option \<Rightarrow> url option" where
  "canonical_key base link =
     (case normalize_url base link of Inl e \<Rightarrow> None | Inr (key, absolute) \<Rightarrow> Some key)"

subsection \<open>Frontier and Visited Set\<close>

text \<open>
  Modelled from the spec: "FrontierEntry: {url: CanonicalURL, rawURL: string}" (the raw
  URL as the absolute URL the normalizer returned), "MirroredPage: {url, sourceURL,
  localPath, bytes}" (without the local path, which the spec leaves to the
  implementation), and "CrawlConfig: {seedURL, maxPages, delaySeconds, mirrorDir}"
  (without the delay, which is real time).
\<close>

record FrontierEntry =
  entry_url :: url
  entry_rawURL :: url

record MirroredPage =
  page_url :: url
  page_sourceURL :: url
  page_bytes :: string

record CrawlConfig =
  seedURL :: url
  maxPages :: nat
  mirrorDir :: string

text \<open>
  Modelled from the spec: the crawl context, "an explicit crawl context object owned by
  the Crawler": the Frontier (a queue, first in first out), the Visited Set (kept as
  the list of its members in the order they were added; enqueue adds a member only
  when it is not one yet), the pages mirrored so far and the failures recorded. The
  fetches are effects of the crawl: \<open>requests\<close> lists the URLs fetched so far, in the
  order of the fetches, so that what a crawl fetches is part of its state.
\<close>

record crawl_state =
  frontier :: "FrontierEntry list"
  visited :: "url list"
  mirror :: "MirroredPage list"
  failures :: "url list"
  requests :: "url list"

definition initial_state :: crawl_state where
  "initial_state =
     \<lparr>frontier = [], visited = [], mirror = [], failures = [], requests = []\<rparr>"

text \<open>
  Modelled from the spec: "enqueue(candidate) adds candidate only if its CanonicalURL
  is not already in VisitedSet and the set's size has not reached maxPages; marks it
  visited immediately on enqueue (not on fetch). Same-origin filter: a candidate whose
  host differs from the seed URL's host is never enqueued."
\<close>

definition enqueue :: "CrawlConfig \<Rightarrow> url \<times> url \<Rightarrow> crawl_state \<Rightarrow> crawl_state" where
  "enqueue cfg candidate st =
     (let (key, absolute) = candidate
      in if url_host key \<noteq> url_host (canonical (seedURL cfg)) then st
         else if key \<in> set (visited st) then st
         else if maxPages cfg \<le> length (visited st) then st
         else st\<lparr>frontier := frontier st @ [\<lparr>entry_url = key, entry_rawURL = absolute\<rparr>],
                 visited := visited st @ [key]\<rparr>)"

text \<open>
  Modelled from the spec: "dequeue() returns the next entry in FIFO order
  (breadth-first) or signals empty".
\<close>

definition dequeue :: "crawl_state \<Rightarrow> (FrontierEntry \<times> crawl_state) option" where
  "dequeue st =
     (case frontier st of
        [] \<Rightarrow> None
      | entry # rest \<Rightarrow> Some (entry, st\<lparr>frontier := rest\<rparr>))"

subsection \<open>Crawler\<close>

text \<open>
  Modelled from the spec: what a fetch gives. "On failure (network error, non-success
  status, timeout)" is \<open>None\<close>; on success the page is its bytes and the hyperlink
  targets the "lightweight scan" of the raw body finds, each a reference or a string
  that cannot be parsed.
\<close>

record fetched_page =
  body :: string
  links :: "reference option list"

type_synonym fetcher = "url \<Rightarrow> fetched_page option"

text \<open>
  Modelled from the spec: "On success: write a MirroredPage, parse out same-origin
  hyperlink targets from the raw body, normalize each via 4.1, and enqueue." A link
  that fails with InvalidURL "is then dropped, not enqueued".
\<close>

definition enqueue_link :: "CrawlConfig \<Rightarrow> url \<Rightarrow> reference option \<Rightarrow> crawl_state \<Rightarrow> crawl_state" where
  "enqueue_link cfg base link st =
     (case normalize_url base link of
        Inl e \<Rightarrow> st
      | Inr candidate \<Rightarrow> enqueue cfg candidate st)"

definition on_success :: "CrawlConfig \<Rightarrow> FrontierEntry \<Rightarrow> fetched_page \<Rightarrow> crawl_state \<Rightarrow> crawl_state" where
  "on_success cfg entry pg st =
     fold (enqueue_link cfg (entry_rawURL entry)) (links pg)
       (st\<lparr>mirror := mirror st @
              [\<lparr>page_url = entry_url entry, page_sourceURL = entry_rawURL entry,
                page_bytes = body pg\<rparr>]\<rparr>)"

text \<open>
  Modelled from the spec: "On failure: record the failure and continue - a single
  page's fetch failure never aborts the crawl."
\<close>

definition on_failure :: "FrontierEntry \<Rightarrow> crawl_state \<Rightarrow> crawl_state" where
  "on_failure entry st = st\<lparr>failures := failures st @ [entry_url entry]\<rparr>"

text \<open>
  Modelled from the spec: "fetch the page". The fetch of a URL gives what the network
  gives for it and enters the URL in the list of requests; the crawl fetches in no
  other way.
\<close>

definition fetch_page :: "fetcher \<Rightarrow> url \<Rightarrow> crawl_state \<Rightarrow> fetched_page option \<times> crawl_state" where
  "fetch_page fetch u st = (fetch u, st\<lparr>requests := requests st @ [u]\<rparr>)"

text \<open>
  Modelled from the spec: one turn of "Loop: while the Frontier is non-empty, dequeue
  one entry, [wait,] fetch the page": the state after the turn. With an empty
  frontier there is no turn.
\<close>

definition crawl_turn :: "fetcher \<Rightarrow> CrawlConfig \<Rightarrow> crawl_state \<Rightarrow> crawl_state" where
  "crawl_turn fetch cfg st =
     (case dequeue st of
        None \<Rightarrow> st
      | Some (entry, st1) \<Rightarrow>
          (case fetch_page fetch (entry_rawURL entry) st1 of
             (None, st2) \<Rightarrow> on_failure entry st2
           | (Some pg, st2) \<Rightarrow> on_success cfg entry pg st2))"

text \<open>The budget that is left, and what bounds the turns still to come.\<close>

definition budget_left :: "CrawlConfig \<Rightarrow> crawl_state \<Rightarrow> nat" where
  "budget_left cfg st = maxPages cfg - length (visited st)"

definition turns_bound :: "CrawlConfig \<Rightarrow> crawl_state \<Rightarrow> nat" where
  "turns_bound cfg st = length (frontier st) + 2 * budget_left cfg st"

text \<open>
  Modelled from the spec: "Loop: while the Frontier is non-empty, dequeue one entry,
  fetch the page", as the list of the states at the head of the loop: the state the
  loop is entered in, the state after each turn, and last the state in which the
  frontier is empty and the loop ends. That every run of the loop ends is the
  termination proof below: each turn makes \<open>turns_bound\<close> smaller.
\<close>

function crawl_loop :: "fetcher \<Rightarrow> CrawlConfig \<Rightarrow> crawl_state \<Rightarrow> crawl_state list" where
  "crawl_loop fetch cfg st =
     (if frontier st = [] then [st]
      else st # crawl_loop fetch cfg (crawl_turn fetch cfg st))"
  by pat_completeness auto

text \<open>
  Modelled from the spec: the crawl from the seed URL. The seed is the first candidate
  enqueued. "Fetching the seed URL itself is the one exception: if that first fetch
  fails, the crawl fails fatally"; otherwise the first turn is the turn of the seed
  page and the loop goes on from there. The result is the fatal error, or the states
  the crawl went through.
\<close>

definition crawl :: "fetcher \<Rightarrow> CrawlConfig \<Rightarrow> crawl_error + crawl_state list" where
  "crawl fetch cfg =
     (let st0 = enqueue cfg (canonical (seedURL cfg), seedURL cfg) initial_state
      in case dequeue st0 of
           None \<Rightarrow> Inr [st0]
         | Some (entry, st1) \<Rightarrow>
             (case fetch_page fetch (entry_rawURL entry) st1 of
                (None, st2) \<Rightarrow> Inl FetchFailed
              | (Some pg, st2) \<Rightarrow>
                  Inr (st0 # crawl_loop fetch cfg (on_success cfg entry pg st2))))"

text \<open>
  Modelled from the spec: the exit status of the crawl step. "Exit code non-zero only
  on failure to fetch the seed URL"; "a fatal error produces a non-zero exit".
\<close>

definition crawl_site_status :: "crawl_error + crawl_state list \<Rightarrow> nat" where
  "crawl_site_status result = (case result of Inl e \<Rightarrow> 1 | Inr states \<Rightarrow> 0)"

text \<open>
  Modelled from the spec: the configuration the wrapper's arguments give the crawl
  step: the site URL as the seed (read from the argument by \<open>parse_url\<close>, which is
  outside the model), at most 50 pages, the mirror directory of the script.
\<close>

definition wrapper_config :: "(string \<Rightarrow> url) \<Rightarrow> string list \<Rightarrow> CrawlConfig" where
  "wrapper_config parse_url argv =
     \<lparr>seedURL = parse_url (SITE_URL argv), maxPages = 50, mirrorDir = MIRROR_DIR\<rparr>"

subsection \<open>Properties of a crawl\<close>


text \<open>
  Modelled from the spec: "host(candidate) == host(seedURL)", for everything a crawl
  holds and does: the entries of the frontier, the members of the Visited Set, the
  URLs fetched, the pages mirrored and the failures recorded. The hosts compared are
  those of the canonical URLs, in lower case; an entry of the frontier and a mirrored
  page carry the canonical form of their own raw URL.
\<close>

definition same_origin :: "CrawlConfig \<Rightarrow> crawl_state \<Rightarrow> bool" where
  "same_origin cfg st \<longleftrightarrow>
     (\<forall>entry \<in> set (frontier st).
        entry_url entry = canonical (entry_rawURL entry)
        \<and> url_host (entry_url entry) = url_host (canonical (seedURL cfg)))
   \<and> (\<forall>key \<in> set (visited st). url_host key = url_host (canonical (seedURL cfg)))
   \<and> (\<forall>u \<in> set (requests st). url_host (canonical u) = url_host (canonical (seedURL cfg)))
   \<and> (\<forall>pg \<in> set (mirror st).
        page_url pg = canonical (page_sourceURL pg)
        \<and> page_sourceURL pg \<in> set (requests st)
        \<and> url_host (page_url pg) = url_host (canonical (seedURL cfg)))
   \<and> (\<forall>key \<in> set (failures st). url_host key = url_host (canonical (seedURL cfg)))"

text \<open>
  Modelled from the spec: "dequeue() returns the next entry in FIFO order" and "marks
  it visited immediately on enqueue": the Visited Set, in the order its members were
  added, is the URLs fetched so far, in the order of the fetches, and then the entries
  that wait in the frontier.
\<close>

definition fifo_order :: "crawl_state \<Rightarrow> bool" where
  "fifo_order st \<longleftrightarrow>
     visited st = map canonical (requests st) @ map entry_url (frontier st)
   \<and> (\<forall>entry \<in> set (frontier st). entry_url entry = canonical (entry_rawURL entry))"


text \<open>
  Modelled from the spec: "dequeue one entry, fetch the page. On success: write a
  MirroredPage. On failure: record the failure and continue", read of two states, one
  before and one after a turn: the turn fetches the raw URL of the entry at the head
  of the frontier and records the outcome, a mirrored page or a failure.
\<close>

definition turn_fetches :: "fetcher \<Rightarrow> crawl_state \<Rightarrow> crawl_state \<Rightarrow> bool" where
  "turn_fetches fetch st st' \<longleftrightarrow>
     (case frontier st of
        [] \<Rightarrow> False
      | entry # rest \<Rightarrow>
          requests st' = requests st @ [entry_rawURL entry]
          \<and> (case fetch (entry_rawURL entry) of
               None \<Rightarrow>
                 failures st' = failures st @ [entry_url entry] \<and> mirror st' = mirror st
             | Some pg \<Rightarrow>
                 mirror st' = mirror st @
                   [\<lparr>page_url = entry_url entry, page_sourceURL = entry_rawURL entry,
                     page_bytes = body pg\<rparr>]
                 \<and> failures st' = failures st))"


section \<open>Example inputs\<close>

text \<open>Concrete inputs at which the theorems below are instantiated.\<close>

definition plain_cn :: class_names where
  "plain_cn args = concat (map (\<lambda>a. case a of None \<Rightarrow> [] | Some c \<Rightarrow> c) args)"

definition example_record :: ImageRecord where
  "example_record =
     \<lparr>page = ''/about'', hubspot_folder = [], hubspot_path = [],
      src = ''https://example.com/a.png'', alt = [], title = [],
      nearest_heading = ''Our Team''\<rparr>"

definition store_a :: store where
  "store_a r = example_record"

definition store_b :: store where
  "store_b r = (if r = 5 then example_record else example_record\<lparr>alt := ''other''\<rparr>)"

definition all_succeed :: "unit exec" where
  "all_succeed c w = (0, w)"

text \<open>
  A run of the wrapper in which the crawl step is the crawler above: the world is the
  network, the default site URL is read as the URL below, and every other command
  succeeds. A network that is down answers no request; one that is up answers each
  with a page without links.
\<close>

definition default_site :: url where
  "default_site =
     \<lparr>url_scheme = ''https'', url_host = ''automation.broadcom.com'', url_path = ''/'',
      url_query = None, url_fragment = None\<rparr>"

definition parse_default :: "string \<Rightarrow> url" where
  "parse_default s = default_site"

definition crawler_exec :: "fetcher exec" where
  "crawler_exec c network =
     (if c = crawl_step []
      then crawl_site_status (crawl network (wrapper_config parse_default []))
      else 0, network)"

definition network_down :: fetcher where
  "network_down u = None"

definition network_up :: fetcher where
  "network_up u = Some \<lparr>body = ''home'', links = []\<rparr>"

definition event_without_domain :: event where
  "event_without_domain = \<lparr>inputFields = (\<lambda>key. None)\<rparr>"

definition event_with_domain :: event where
  "event_with_domain =
     \<lparr>inputFields = (\<lambda>key. if key = ''company_domain'' then Some (JString ''example.com'')
                            else None)\<rparr>"

text \<open>
  The document of the specification's scenario:
  \<^verbatim>\<open><h2>Team</h2><p><img src="a.png" alt="A"></p><h2>Gallery</h2><img src="b.png" alt="B">\<close>,
  with an image before the first heading and white space around the second heading.
\<close>

definition example_document :: DocumentNode where
  "example_document =
     ElementNode ''body'' []
       [ElementNode ''img'' [(''src'', ''logo.png'')] [],
        ElementNode ''h2'' [] [TextNode ''Team''],
        ElementNode ''p'' [] [ElementNode ''img'' [(''src'', ''a.png''), (''alt'', ''A'')] []],
        ElementNode ''h2'' [] [TextNode '' Gallery ''],
        ElementNode ''img'' [(''src'', ''b.png''), (''alt'', ''B'')] []]"

text \<open>
  The crawl of the specification's scenario: seed \<^verbatim>\<open>https://example.com/\<close>, maxPages 2,
  the seed page links to \<^verbatim>\<open>/about\<close> and to \<^verbatim>\<open>https://other.com/x\<close>.
\<close>

definition example_seed :: url where
  "example_seed =
     \<lparr>url_scheme = ''https'', url_host = ''example.com'', url_path = ''/'',
      url_query = None, url_fragment = None\<rparr>"

definition example_about :: url where
  "example_about =
     \<lparr>url_scheme = ''https'', url_host = ''example.com'', url_path = ''/about'',
      url_query = None, url_fragment = None\<rparr>"

definition example_other :: url where
  "example_other =
     \<lparr>url_scheme = ''https'', url_host = ''other.com'', url_path = ''/x'',
      url_query = None, url_fragment = None\<rparr>"

definition example_link :: reference where
  "example_link =
     \<lparr>ref_scheme = Some ''HTTPS'', ref_host = Some ''Example.COM'', ref_path = [],
      ref_query = None, ref_fragment = Some ''top''\<rparr>"

definition example_cfg :: CrawlConfig where
  "example_cfg = \<lparr>seedURL = example_seed, maxPages = 2, mirrorDir = ''site_mirror''\<rparr>"

definition example_fetch :: fetcher where
  "example_fetch u =
     (if u = example_seed then
        Some \<lparr>body = ''home'',
              links = [Some \<lparr>ref_scheme = None, ref_host = None, ref_path = ''/about'',
                             ref_query = None, ref_fragment = None\<rparr>,
                       Some (as_reference example_other)]\<rparr>
      else if u = example_about then Some \<lparr>body = ''about'', links = []\<rparr>
      else None)"

definition example_states :: "crawl_state list" where
  "example_states =
     [\<lparr>frontier = [\<lparr>entry_url = example_seed, entry_rawURL = example_seed\<rparr>],
       visited = [example_seed], mirror = [], failures = [], requests = []\<rparr>,
      \<lparr>frontier = [\<lparr>entry_url = example_about, entry_rawURL = example_about\<rparr>],
       visited = [example_seed, example_about],
       mirror = [\<lparr>page_url = example_seed, page_sourceURL = example_seed,
                  page_bytes = ''home''\<rparr>],
       failures = [], requests = [example_seed]\<rparr>,
      \<lparr>frontier = [],
       visited = [example_seed, example_about],
       mirror = [\<lparr>page_url = example_seed, page_sourceURL = example_seed,
                  page_bytes = ''home''\<rparr>,
                 \<lparr>page_url = example_about, page_sourceURL = example_about,
                  page_bytes = ''about''\<rparr>],
       failures = [], requests = [example_seed, example_about]\<rparr>]"

section \<open>Theorems\<close>

subsection \<open>The dashboard table\<close>

lemma image_row_store: "snd (image_row cn img index s) = s"
  by (simp add: image_row_def)

lemma map_rows_store: "snd (map_rows cn index images s) = s"
  by (induction images arbitrary: index s) (simp_all add: split_beta image_row_store)

lemma image_row_reads:
  "s img = s' img' \<Longrightarrow> fst (image_row cn img index s) = fst (image_row cn img' index s')"
  by (simp add: image_row_def)

lemma map_rows_reads:
  "map s images = map s' images' \<Longrightarrow>
   fst (map_rows cn index images s) = fst (map_rows cn index images' s')"
proof (induction images arbitrary: index images')
  case Nil
  then show ?case by simp
next
  case (Cons img rest)
  then obtain img' rest' where images': "images' = img' # rest'"
    by (cases images') auto
  with Cons.prems have hd: "s img = s' img'" and tl: "map s rest = map s' rest'"
    by simp_all
  have row: "fst (image_row cn img index s) = fst (image_row cn img' index s')"
    using hd by (rule image_row_reads)
  show ?case
    using row Cons.IH [OF tl, of "Suc index"]
    by (simp add: images' split_beta image_row_store)
qed

lemma cell_texts_row:
  "cell_texts (fst (image_row cn img index s)) =
     [page (s img),
      if hubspot_folder (s img) = [] then em_dash else hubspot_folder (s img),
      hubspot_path (s img),
      if nearest_heading (s img) = [] then em_dash else nearest_heading (s img),
      if alt (s img) = [] then em_dash else alt (s img),
      ''Open'']"
  by (simp add: cell_texts_def image_row_def Badge_def js_or_def)

lemma cell_texts_rows:
  "map cell_texts (fst (map_rows cn index images s)) =
   map (\<lambda>img.
          [page (s img),
           if hubspot_folder (s img) = [] then em_dash else hubspot_folder (s img),
           hubspot_path (s img),
           if nearest_heading (s img) = [] then em_dash else nearest_heading (s img),
           if alt (s img) = [] then em_dash else alt (s img),
           ''Open''])
       images"
  by (induction images arbitrary: index)
     (simp_all add: split_beta image_row_store cell_texts_row)

lemma body_rows_ImageTable:
  "images \<noteq> [] \<Longrightarrow>
   body_rows (fst (ImageTable cn images s)) = fst (map_rows cn 0 images s)"
  by (simp add: ImageTable_def body_rows_def split_beta)

text \<open>
  C1. The record consumed by the table has exactly the seven members page,
  hubspot\_folder, hubspot\_path, src, alt, title, nearest\_heading, in the column order
  of the report file; each is read as a string, and a record is nothing but the values
  of these seven.
\<close>

theorem ImageRecord_schema:
  "map fst ImageRecord_members = report_columns
   \<and> length ImageRecord_members = 7
   \<and> distinct (map fst ImageRecord_members)
   \<and> map (\<lambda>(name, get). get r) ImageRecord_members =
       [page r, hubspot_folder r, hubspot_path r, src r, alt r, title r, nearest_heading r]
   \<and> r = \<lparr>page = page r, hubspot_folder = hubspot_folder r, hubspot_path = hubspot_path r,
           src = src r, alt = alt r, title = title r, nearest_heading = nearest_heading r\<rparr>"
  by (simp add: ImageRecord_members_def report_columns_def)

text \<open>
  C8. Rendering the table leaves the store as it was, so every field of every record
  of the images prop is unchanged; and the element it returns depends on nothing but
  the records of the images prop: two calls whose props hold the same records, in
  whatever stores, return the same element.
\<close>

theorem ImageTable_pure_consumer:
  "snd (ImageTable cn images s) = s
   \<and> (map s images = map s' images' \<longrightarrow>
        fst (ImageTable cn images s) = fst (ImageTable cn images' s'))"
proof
  show "snd (ImageTable cn images s) = s"
    by (simp add: ImageTable_def split_beta map_rows_store)
next
  show "map s images = map s' images' \<longrightarrow>
        fst (ImageTable cn images s) = fst (ImageTable cn images' s')"
  proof
    assume same: "map s images = map s' images'"
    then have "length images = length images'"
      by (rule map_eq_imp_length_eq)
    with map_rows_reads [OF same, of cn 0] show
      "fst (ImageTable cn images s) = fst (ImageTable cn images' s')"
      by (simp add: ImageTable_def split_beta)
  qed
qed

theorem ImageTable_pure_consumer_witness:
  "snd (ImageTable plain_cn [0] store_a) = store_a
   \<and> fst (ImageTable plain_cn [0] store_a) = fst (ImageTable plain_cn [5] store_b)"
proof -
  have same: "map store_a [0] = map store_b [5]"
    by (simp add: store_a_def store_b_def)
  with ImageTable_pure_consumer [of plain_cn "[0]" store_a store_b "[5]"]
  show ?thesis by blast
qed

text \<open>
  C10. In every row of a table with images, the cells read, in order: the page; the
  folder, or the dash when it is empty; the path as it is (an empty path shows nothing);
  the heading, or the dash when it is empty; the alt text, or the dash when it is
  empty; and the link's label.
\<close>

theorem ImageTable_cells:
  "images \<noteq> [] \<Longrightarrow>
   map cell_texts (body_rows (fst (ImageTable cn images s))) =
   map (\<lambda>img.
          [page (s img),
           if hubspot_folder (s img) = [] then em_dash else hubspot_folder (s img),
           hubspot_path (s img),
           if nearest_heading (s img) = [] then em_dash else nearest_heading (s img),
           if alt (s img) = [] then em_dash else alt (s img),
           ''Open''])
       images"
  by (simp add: body_rows_ImageTable cell_texts_rows)

theorem ImageTable_cells_witness:
  "map cell_texts (body_rows (fst (ImageTable plain_cn [0] store_a))) =
     [[''/about'', em_dash, [], ''Our Team'', em_dash, ''Open'']]"
proof -
  have "[0::nat] \<noteq> []" by simp
  from ImageTable_cells [OF this, of plain_cn store_a] show ?thesis
    by (simp add: store_a_def example_record_def)
qed

subsection \<open>The orchestration wrapper\<close>

lemma world_after_Cons: "world_after exec (c # cs) w = world_after exec cs (snd (exec c w))"
  by (simp add: world_after_def)

lemma world_after_Nil: "world_after exec [] w = w"
  by (simp add: world_after_def)

text \<open>
  What \<^verbatim>\<open>set -e\<close> does with any list of commands: the commands that ran are the first
  ones of the list, each with the status \<open>exec\<close> gives it in the world the commands
  before it left; all but the last have status 0; the exit status is that of the last.
\<close>

lemma run_set_e_spec:
  "run_set_e exec cs w = (status, trace, w') \<Longrightarrow>
     map fst trace = take (length trace) cs
   \<and> (\<forall>i<length trace.
         snd (trace ! i) = fst (exec (cs ! i) (world_after exec (take i cs) w)))
   \<and> (\<forall>i. Suc i < length trace \<longrightarrow> snd (trace ! i) = 0)
   \<and> w' = world_after exec (take (length trace) cs) w
   \<and> length trace \<le> length cs
   \<and> (cs \<noteq> [] \<longrightarrow> trace \<noteq> [] \<and> status = snd (last trace))
   \<and> (status \<noteq> 0 \<or> length trace = length cs)"
proof (induction cs arbitrary: w status trace w')
  case Nil
  then show ?case by (auto simp add: world_after_Nil)
next
  case (Cons c cs)
  obtain st w1 where ex: "exec c w = (st, w1)" by (cases "exec c w")
  show ?case
  proof (cases "st = 0")
    case False
    with Cons.prems ex have eqs: "status = st" "trace = [(c, st)]" "w' = w1" by auto
    show ?thesis
      using False ex unfolding eqs
      by (simp add: world_after_Cons world_after_Nil)
  next
    case True
    obtain st' tr' w2 where rest: "run_set_e exec cs w1 = (st', tr', w2)"
      by (cases "run_set_e exec cs w1")
    with Cons.prems ex True
    have eqs: "status = st'" "trace = (c, 0) # tr'" "w' = w2" by auto
    note IH = Cons.IH [OF rest]
    have w1: "snd (exec c w) = w1" and st0: "fst (exec c w) = 0"
      using ex True by simp_all
    have names: "map fst ((c, 0) # tr') = take (length ((c, 0) # tr')) (c # cs)"
      using IH by simp
    have statuses: "\<forall>i<length ((c, 0) # tr').
         snd (((c, 0) # tr') ! i)
         = fst (exec ((c # cs) ! i) (world_after exec (take i (c # cs)) w))"
    proof (intro allI impI)
      fix i assume i: "i < length ((c, 0) # tr')"
      show "snd (((c, 0) # tr') ! i)
         = fst (exec ((c # cs) ! i) (world_after exec (take i (c # cs)) w))"
      proof (cases i)
        case 0
        then show ?thesis by (simp add: world_after_Nil st0)
      next
        case (Suc j)
        with i have "j < length tr'" by simp
        with IH have "snd (tr' ! j) = fst (exec (cs ! j) (world_after exec (take j cs) w1))"
          by blast
        then show ?thesis by (simp add: Suc world_after_Cons w1)
      qed
    qed
    have zeros: "\<forall>i. Suc i < length ((c, 0) # tr') \<longrightarrow> snd (((c, 0) # tr') ! i) = 0"
    proof (intro allI impI)
      fix i assume i: "Suc i < length ((c, 0) # tr')"
      show "snd (((c, 0) # tr') ! i) = 0"
      proof (cases i)
        case 0
        then show ?thesis by simp
      next
        case (Suc j)
        with i have "Suc j < length tr'" by simp
        with IH have "snd (tr' ! j) = 0" by blast
        then show ?thesis by (simp add: Suc)
      qed
    qed
    have world: "w2 = world_after exec (take (length ((c, 0) # tr')) (c # cs)) w"
      using IH by (simp add: world_after_Cons w1)
    have len: "length ((c, 0) # tr') \<le> length (c # cs)"
      using IH by simp
    have last_status: "st' = snd (last ((c, 0) # tr'))"
    proof (cases "cs = []")
      case True
      with rest have "st' = 0" "tr' = []" by simp_all
      then show ?thesis by simp
    next
      case False
      with IH have "tr' \<noteq> []" "st' = snd (last tr')" by simp_all
      then show ?thesis by simp
    qed
    have whole: "st' \<noteq> 0 \<or> length ((c, 0) # tr') = length (c # cs)"
      using IH by auto
    from names statuses zeros world len last_status whole show ?thesis
      unfolding eqs by simp
  qed
qed

lemma step_facts:
  "is_python3 (crawl_step argv)" "is_python3 extract_step"
  "crawl_step argv \<noteq> extract_step" "extract_step \<noteq> crawl_step argv"
  "Echo x \<noteq> crawl_step argv" "Echo x \<noteq> extract_step"
  "crawl_step argv \<noteq> Echo x" "extract_step \<noteq> Echo x"
  by (simp_all add: crawl_step_def extract_step_def)

lemma wrapper_programs:
  "filter is_python3 (wrapper_commands argv) = [crawl_step argv, extract_step]"
  by (simp add: wrapper_commands_def step_facts)

lemma wrapper_length: "length (wrapper_commands argv) = 8"
  by (simp add: wrapper_commands_def)

lemma wrapper_nth:
  "wrapper_commands argv ! 1 = crawl_step argv"
  "wrapper_commands argv ! Suc 0 = crawl_step argv"
  "wrapper_commands argv ! 4 = extract_step"
  by (simp_all add: wrapper_commands_def)

lemma steps_of_prefix:
  "k \<le> 8 \<Longrightarrow>
   filter is_python3 (take k (wrapper_commands argv)) =
     (if k \<le> 1 then [] else if k \<le> 4 then [crawl_step argv]
      else [crawl_step argv, extract_step])"
proof -
  assume "k \<le> 8"
  then have "k = 0 \<or> k = 1 \<or> k = 2 \<or> k = 3 \<or> k = 4 \<or> k = 5 \<or> k = 6 \<or> k = 7 \<or> k = 8"
    by arith
  then show ?thesis
    by (elim disjE) (simp_all add: wrapper_commands_def step_facts)
qed

lemma wrapper_run:
  assumes run: "extract_site_images exec argv w = (status, trace, w')"
  shows "trace \<noteq> []"
    and "map fst trace = take (length trace) (wrapper_commands argv)"
    and "\<forall>i<length trace. snd (trace ! i) = status_at exec argv w i"
    and "\<forall>i. Suc i < length trace \<longrightarrow> snd (trace ! i) = 0"
    and "w' = world_after exec (take (length trace) (wrapper_commands argv)) w"
    and "length trace \<le> 8"
    and "status = snd (last trace)"
    and "status \<noteq> 0 \<or> length trace = 8"
proof -
  have ne: "wrapper_commands argv \<noteq> []"
    by (simp add: wrapper_commands_def)
  note spec = run_set_e_spec [OF run [unfolded extract_site_images_def]]
  from spec ne show "trace \<noteq> []" by blast
  from spec show "map fst trace = take (length trace) (wrapper_commands argv)" by blast
  from spec show "\<forall>i<length trace. snd (trace ! i) = status_at exec argv w i"
    unfolding status_at_def by blast
  from spec show "\<forall>i. Suc i < length trace \<longrightarrow> snd (trace ! i) = 0" by blast
  from spec show "w' = world_after exec (take (length trace) (wrapper_commands argv)) w"
    by blast
  from spec show "length trace \<le> 8" by (simp add: wrapper_length)
  from spec ne show "status = snd (last trace)" by blast
  from spec show "status \<noteq> 0 \<or> length trace = 8" by (simp add: wrapper_length)
qed

lemma trace_reaches:
  assumes run: "extract_site_images exec argv w = (status, trace, w')"
    and n: "n < 8" and ok: "\<forall>i<n. status_at exec argv w i = 0"
  shows "n < length trace \<and> trace ! n = (wrapper_commands argv ! n, status_at exec argv w n)"
proof -
  note facts = wrapper_run [OF run]
  have reach: "n < length trace"
  proof (rule ccontr)
    assume "\<not> n < length trace"
    then have short: "length trace \<le> n" by simp
    from facts(1) have pos: "length trace - 1 < length trace" by simp
    with short have "length trace - 1 < n" by simp
    with ok have "status_at exec argv w (length trace - 1) = 0" by blast
    with facts(3) pos have "snd (trace ! (length trace - 1)) = 0" by simp
    with facts(1) have "snd (last trace) = 0" by (simp add: last_conv_nth)
    with facts(7) have "status = 0" by simp
    with facts(8) have "length trace = 8" by simp
    with short n show False by simp
  qed
  have "fst (trace ! n) = map fst trace ! n" using reach by simp
  also have "\<dots> = take (length trace) (wrapper_commands argv) ! n"
    using facts(2) by simp
  also have "\<dots> = wrapper_commands argv ! n" using reach by simp
  finally have "fst (trace ! n) = wrapper_commands argv ! n" .
  moreover from facts(3) reach have "snd (trace ! n) = status_at exec argv w n" by blast
  ultimately have "trace ! n = (wrapper_commands argv ! n, status_at exec argv w n)"
    by (simp add: prod_eq_iff)
  with reach show ?thesis by simp
qed

lemma wrapper_steps_run:
  assumes run: "extract_site_images exec argv w = (status, trace, w')"
  shows "steps_run trace =
     (if length trace \<le> 1 then [] else if length trace \<le> 4 then [crawl_step argv]
      else [crawl_step argv, extract_step])"
  using wrapper_run(2,6) [OF run] steps_of_prefix [of "length trace" argv]
  by (simp add: steps_run_def)

lemma wrapper_all_ok:
  assumes run: "extract_site_images exec argv w = (status, trace, w')"
    and ok: "\<forall>i<8. status_at exec argv w i = 0"
  shows "status = 0 \<and> map fst trace = wrapper_commands argv
         \<and> steps_run trace = [crawl_step argv, extract_step]"
proof -
  note facts = wrapper_run [OF run]
  from ok have "\<forall>i<7. status_at exec argv w i = 0" by simp
  with trace_reaches [OF run, of 7] have seven: "7 < length trace" by simp
  with facts(6) have len: "length trace = 8" by simp
  with facts(1) have "last trace = trace ! 7" by (simp add: last_conv_nth)
  with facts(3) facts(7) len ok have "status = 0" by simp
  moreover from facts(2) len have "map fst trace = wrapper_commands argv"
    by (simp add: wrapper_length)
  moreover from wrapper_steps_run [OF run] len
  have "steps_run trace = [crawl_step argv, extract_step]" by simp
  ultimately show ?thesis by simp
qed

text \<open>
  C2. The script's only programs are the crawl step and, after it, the extract step;
  every other command is an echo. A run of the script goes through its commands in
  order, from the first: each command that ran has the status \<open>exec\<close> gives it in the
  world the commands before it left, every command but the last that ran has status 0,
  the exit status is that of the last, and a run that exits with status 0 went through
  all eight commands. So the crawl step is invoked exactly when the echo before it
  succeeds, the extract step exactly when the four commands before it succeed (the
  crawl step among them), and when every command succeeds the run invokes the crawl
  step, then the extract step, and exits with status 0. The crawl step gets the site
  URL, the mirror directory site\_mirror, at most 50 pages and a delay of 1.5 seconds;
  the extract step reads the same directory. Without a positional argument, or with an
  empty one, the site URL is the fixed default.
\<close>

theorem wrapper_steps:
  assumes run: "extract_site_images exec argv w = (status, trace, w')"
  shows "filter is_python3 (wrapper_commands argv) = [crawl_step argv, extract_step]
   \<and> trace \<noteq> []
   \<and> map fst trace = take (length trace) (wrapper_commands argv)
   \<and> (\<forall>i<length trace. snd (trace ! i) = status_at exec argv w i)
   \<and> (\<forall>i. Suc i < length trace \<longrightarrow> snd (trace ! i) = 0)
   \<and> status = snd (last trace)
   \<and> (status \<noteq> 0 \<or> length trace = 8)
   \<and> w' = world_after exec (take (length trace) (wrapper_commands argv)) w
   \<and> steps_run trace =
       (if length trace \<le> 1 then [] else if length trace \<le> 4 then [crawl_step argv]
        else [crawl_step argv, extract_step])
   \<and> (status_at exec argv w 0 = 0 \<longrightarrow>
        1 < length trace \<and> trace ! 1 = (crawl_step argv, status_at exec argv w 1))
   \<and> ((\<forall>i<4. status_at exec argv w i = 0) \<longrightarrow>
        4 < length trace \<and> trace ! 4 = (extract_step, status_at exec argv w 4))
   \<and> ((\<forall>i<8. status_at exec argv w i = 0) \<longrightarrow>
        status = 0 \<and> map fst trace = wrapper_commands argv
        \<and> steps_run trace = [crawl_step argv, extract_step])
   \<and> crawl_step argv =
        Python3 [''scripts/crawl_site.py'', SITE_URL argv, ''--output'', ''site_mirror'',
                 ''--max-pages'', ''50'', ''--delay'', ''1.5'']
   \<and> extract_step =
        Python3 [''scripts/extract_images.py'', ''site_mirror'', ''--csv-out'',
                 ''analytics/ui/public/image-report.csv'', ''--verbose'']
   \<and> SITE_URL [] = ''https://automation.broadcom.com/''
   \<and> SITE_URL (url # rest) = (if url = [] then ''https://automation.broadcom.com/'' else url)"
proof -
  note facts = wrapper_run [OF run]
  have first: "status_at exec argv w 0 = 0 \<longrightarrow>
        1 < length trace \<and> trace ! 1 = (crawl_step argv, status_at exec argv w 1)"
  proof
    assume "status_at exec argv w 0 = 0"
    then have "\<forall>i<1. status_at exec argv w i = 0" by simp
    with trace_reaches [OF run, of 1] show
      "1 < length trace \<and> trace ! 1 = (crawl_step argv, status_at exec argv w 1)"
      by (simp add: wrapper_nth)
  qed
  have second: "(\<forall>i<4. status_at exec argv w i = 0) \<longrightarrow>
        4 < length trace \<and> trace ! 4 = (extract_step, status_at exec argv w 4)"
  proof
    assume "\<forall>i<4. status_at exec argv w i = 0"
    with trace_reaches [OF run, of 4] show
      "4 < length trace \<and> trace ! 4 = (extract_step, status_at exec argv w 4)"
      by (simp add: wrapper_nth)
  qed
  have all: "(\<forall>i<8. status_at exec argv w i = 0) \<longrightarrow>
        status = 0 \<and> map fst trace = wrapper_commands argv
        \<and> steps_run trace = [crawl_step argv, extract_step]"
    using wrapper_all_ok [OF run] by blast
  have words: "crawl_step argv =
        Python3 [''scripts/crawl_site.py'', SITE_URL argv, ''--output'', ''site_mirror'',
                 ''--max-pages'', ''50'', ''--delay'', ''1.5'']
   \<and> extract_step =
        Python3 [''scripts/extract_images.py'', ''site_mirror'', ''--csv-out'',
                 ''analytics/ui/public/image-report.csv'', ''--verbose'']
   \<and> SITE_URL [] = ''https://automation.broadcom.com/''
   \<and> SITE_URL (url # rest) = (if url = [] then ''https://automation.broadcom.com/'' else url)"
    by (simp add: crawl_step_def extract_step_def MIRROR_DIR_def CSV_OUT_def SITE_URL_def)
  from wrapper_programs [of argv] facts wrapper_steps_run [OF run] first second all words
  show ?thesis by blast
qed

theorem wrapper_steps_witness:
  "extract_site_images all_succeed [] () = (0, map (\<lambda>c. (c, 0)) (wrapper_commands []), ())
   \<and> steps_run (map (\<lambda>c. (c, 0)) (wrapper_commands [])) = [crawl_step [], extract_step]"
proof -
  have run: "extract_site_images all_succeed [] ()
             = (0, map (\<lambda>c. (c, 0)) (wrapper_commands []), ())"
    by (simp add: extract_site_images_def wrapper_commands_def all_succeed_def)
  have ok: "\<forall>i<8. status_at all_succeed [] () i = 0"
    by (simp add: status_at_def all_succeed_def)
  from wrapper_steps [OF run] ok
  have "steps_run (map (\<lambda>c. (c, 0)) (wrapper_commands [])) = [crawl_step [], extract_step]"
    by blast
  with run show ?thesis by simp
qed

subsection \<open>The workflow action\<close>

lemma dyadic_below_one:
  fixes m :: int and P k :: nat
  assumes m: "\<bar>m\<bar> < 2 ^ P" and P: "0 < P" and x: "x = of_int m / 2 ^ k" and x1: "x < (1::real)"
  shows "x \<le> 1 - 1 / 2 ^ P"
proof (cases "k \<le> P")
  case True
  define n where "n = m * 2 ^ (P - k)"
  have pw: "(2::real) ^ P = 2 ^ (P - k) * 2 ^ k"
    using True by (simp flip: power_add)
  have xn: "x = of_int n / 2 ^ P"
    unfolding x n_def pw by simp
  have "of_int n < (2::real) ^ P"
    using x1 unfolding xn by (simp add: divide_simps)
  then have "(of_int n :: real) < of_int (2 ^ P)" by simp
  then have "n < 2 ^ P" by (simp only: of_int_less_iff)
  then have "n \<le> 2 ^ P - 1" by simp
  then have "(of_int n :: real) \<le> of_int (2 ^ P - 1)" by (simp only: of_int_le_iff)
  then have "(of_int n :: real) \<le> 2 ^ P - 1" by simp
  then show ?thesis
    unfolding xn by (simp add: divide_simps)
next
  case False
  then have "Suc P \<le> k" by simp
  then have "(2::real) ^ Suc P \<le> 2 ^ k"
    by (intro power_increasing) simp_all
  then have k: "2 * (2::real) ^ P \<le> 2 ^ k" by simp
  have "m < 2 ^ P" using m by simp
  then have "(of_int m :: real) < of_int (2 ^ P)" by (simp only: of_int_less_iff)
  then have mP: "(of_int m :: real) < 2 ^ P" by simp
  have "2 * of_int m < (2::real) ^ k" using k mP by linarith
  then have half: "x < 1 / 2"
    unfolding x by (simp add: divide_simps)
  have "(2::real) ^ 1 \<le> 2 ^ P"
    using P by (intro power_increasing) simp_all
  then have "1 / (2::real) ^ P \<le> 1 / 2"
    by (simp add: divide_simps)
  with half show ?thesis by linarith
qed

lemma double_below_one:
  assumes "is_double x" "x < 1"
  shows "x \<le> 1 - 1 / 2 ^ 53"
proof -
  from assms(1) obtain m :: int and k :: nat where m: "\<bar>m\<bar> < 2 ^ 53"
    and rep: "(k \<le> 1074 \<and> x = of_int m / 2 ^ k) \<or> (k \<le> 971 \<and> x = of_int m * 2 ^ k)"
    unfolding is_double_def by blast
  from rep show ?thesis
  proof
    assume "k \<le> 1074 \<and> x = of_int m / 2 ^ k"
    then have x: "x = of_int m / 2 ^ k" by simp
    show ?thesis
      using m _ x assms(2) by (rule dyadic_below_one) simp
  next
    assume "k \<le> 971 \<and> x = of_int m * 2 ^ k"
    then have x: "x = of_int (m * 2 ^ k)" by simp
    with assms(2) have "(of_int (m * 2 ^ k) :: real) < of_int 1" by simp
    then have "m * 2 ^ k < 1" by (simp only: of_int_less_iff)
    then have "m * 2 ^ k \<le> 0" by simp
    then have "(of_int (m * 2 ^ k) :: real) \<le> of_int 0" by (simp only: of_int_le_iff)
    then have "x \<le> 0" unfolding x by simp
    then show ?thesis by simp
  qed
qed

lemma is_double_dyadic:
  "\<bar>m\<bar> < 2 ^ 53 \<Longrightarrow> k \<le> 1074 \<Longrightarrow> is_double (of_int m / 2 ^ k)"
  unfolding is_double_def by blast

lemma is_double_0: "is_double 0"
  using is_double_dyadic [of 0 0] by simp

lemma is_double_below_million: "is_double (1000000 - 1 / 2 ^ 33)"
proof -
  have eq: "(1000000 - 1 / 2 ^ 33 :: real) = of_int (1000000 * 2 ^ 33 - 1) / 2 ^ 33"
    by simp
  have m: "\<bar>1000000 * 2 ^ 33 - 1 :: int\<bar> < 2 ^ 53" by simp
  have k: "(33::nat) \<le> 1074" by simp
  show ?thesis
    unfolding eq using m k by (rule is_double_dyadic)
qed

lemma random_product_range:
  assumes r: "is_double r" "0 \<le> r" "r < 1" and p: "rounds_to (r * 1000000) p"
  shows "0 \<le> p \<and> p < 1000000"
proof -
  define x where "x = r * 1000000"
  define a :: real where "a = 1 / 2 ^ 33"
  define b :: real where "b = 1000000 / 2 ^ 53"
  have r_le: "r \<le> 1 - 1 / 2 ^ 53" using r(1,3) by (rule double_below_one)
  have x0: "0 \<le> x" using r(2) by (simp add: x_def)
  have x1: "x \<le> 1000000 - b" using r_le by (simp add: x_def b_def)
  have near0: "\<bar>p - x\<bar> \<le> \<bar>0 - x\<bar>"
    using p is_double_0 unfolding rounds_to_def x_def by blast
  have near1: "\<bar>p - x\<bar> \<le> \<bar>(1000000 - a) - x\<bar>"
    using p is_double_below_million unfolding rounds_to_def x_def a_def by blast
  have a0: "0 < a" by (simp add: a_def)
  have ab: "a < 2 * b" by (simp add: a_def b_def)
  have "0 \<le> p" using near0 x0 by linarith
  moreover have "p < 1000000"
    using near1 x1 a0 ab by linarith
  ultimately show ?thesis by simp
qed

text \<open>
  C9. When the company\_domain input field is missing or falsy, main throws the error
  "Missing company domain" and never calls the callback. When it is truthy, and
  Math.random returns a double in [0, 1) whose product with 1000000 is rounded to a
  nearest double, main returns normally after exactly one call of the callback, whose
  enriched\_revenue is an integer from 0 to 999999.
\<close>

theorem main_outcome:
  "(\<not> truthy (get_field (inputFields event) ''company_domain'') \<longrightarrow>
      main random multiply event = (Inl (Error ''Missing company domain''), []))
   \<and> (truthy (get_field (inputFields event) ''company_domain'')
      \<and> is_double random \<and> 0 \<le> random \<and> random < 1
      \<and> rounds_to (random * 1000000) (multiply random 1000000) \<longrightarrow>
      (\<exists>n. main random multiply event
             = (Inr (), [\<lparr>outputFields = \<lparr>enriched_revenue = n\<rparr>\<rparr>])
           \<and> 0 \<le> n \<and> n \<le> 999999))"
proof (intro conjI impI)
  assume "\<not> truthy (get_field (inputFields event) ''company_domain'')"
  then show "main random multiply event = (Inl (Error ''Missing company domain''), [])"
    by (simp add: main_def)
next
  assume a: "truthy (get_field (inputFields event) ''company_domain'')
      \<and> is_double random \<and> 0 \<le> random \<and> random < 1
      \<and> rounds_to (random * 1000000) (multiply random 1000000)"
  then have "is_double random" "0 \<le> random" "random < 1"
      "rounds_to (random * 1000000) (multiply random 1000000)"
    by simp_all
  then have range: "0 \<le> multiply random 1000000 \<and> multiply random 1000000 < 1000000"
    by (rule random_product_range)
  define n where "n = \<lfloor>multiply random 1000000\<rfloor>"
  have "0 \<le> n" using range by (simp add: n_def)
  moreover have "n < 1000000" using range by (simp add: n_def floor_less_iff)
  moreover have "main random multiply event
                 = (Inr (), [\<lparr>outputFields = \<lparr>enriched_revenue = n\<rparr>\<rparr>])"
    using a by (simp add: main_def n_def)
  ultimately show "\<exists>n. main random multiply event
             = (Inr (), [\<lparr>outputFields = \<lparr>enriched_revenue = n\<rparr>\<rparr>])
           \<and> 0 \<le> n \<and> n \<le> 999999"
    by (intro exI [of _ n]) simp
qed

lemma is_double_half: "is_double (1 / 2)"
  using is_double_dyadic [of 1 1] by simp

lemma rounds_to_exact: "is_double x \<Longrightarrow> rounds_to x x"
  by (simp add: rounds_to_def)

lemma is_double_half_million: "is_double 500000"
  using is_double_dyadic [of 500000 0] by simp

theorem main_outcome_witness:
  "main (1 / 2) (*) event_without_domain = (Inl (Error ''Missing company domain''), [])
   \<and> (\<exists>n. main (1 / 2) (*) event_with_domain
             = (Inr (), [\<lparr>outputFields = \<lparr>enriched_revenue = n\<rparr>\<rparr>])
           \<and> 0 \<le> n \<and> n \<le> 999999)"
proof -
  have falsy: "\<not> truthy (get_field (inputFields event_without_domain) ''company_domain'')"
    by (simp add: event_without_domain_def get_field_def)
  have truthy: "truthy (get_field (inputFields event_with_domain) ''company_domain'')"
    by (simp add: event_with_domain_def get_field_def)
  have product: "rounds_to (1 / 2 * 1000000) (1 / 2 * 1000000)"
    using is_double_half_million by (intro rounds_to_exact) simp
  have unit: "is_double (1 / 2) \<and> (0::real) \<le> 1 / 2 \<and> (1::real) / 2 < 1"
    using is_double_half by simp
  from main_outcome [of event_without_domain "1 / 2" "(*)"] falsy
  have first: "main (1 / 2) (*) event_without_domain
               = (Inl (Error ''Missing company domain''), [])"
    by blast
  from main_outcome [of event_with_domain "1 / 2" "(*)"] truthy product unit
  have "\<exists>n. main (1 / 2) (*) event_with_domain
             = (Inr (), [\<lparr>outputFields = \<lparr>enriched_revenue = n\<rparr>\<rparr>])
           \<and> 0 \<le> n \<and> n \<le> 999999"
    by blast
  with first show ?thesis by blast
qed

subsection \<open>The heading context\<close>

lemma walk_fold:
  "walk node st = fold visit (preorder node) st"
  "walk_children nodes st = fold visit (concat (map preorder nodes)) st"
  by (induction node st and nodes st rule: walk_walk_children.induct) simp_all

lemma running_snoc:
  "running start (earlier @ [node]) =
     (if is_heading node then trim (node_text node) else running start earlier)"
  by (simp add: running_def)

lemma heading_not_image: "is_heading node \<Longrightarrow> \<not> is_image node"
  by (cases node) auto

lemma image_positions_snoc:
  "image_positions (nodes @ [node]) =
     image_positions nodes @ (if is_image node then [length nodes] else [])"
proof -
  have "filter (\<lambda>i. is_image ((nodes @ [node]) ! i)) [0 ..< length nodes]
        = filter (\<lambda>i. is_image (nodes ! i)) [0 ..< length nodes]"
    by (rule filter_cong) (simp_all add: nth_append)
  then show ?thesis
    by (simp add: image_positions_def)
qed

lemma image_positions_bound: "i \<in> set (image_positions nodes) \<Longrightarrow> i < length nodes"
  by (simp add: image_positions_def)

lemma image_not_heading: "is_image node \<Longrightarrow> \<not> is_heading node"
  by (cases node) auto

lemma visit_running:
  "visit node (running start nodes, snapshots) =
     (running start (nodes @ [node]),
      snapshots @ (if is_image node then [running start (nodes @ [node])] else []))"
  by (simp add: visit_def Let_def running_snoc)

lemma fold_visit:
  "fold visit nodes (start, snapshots) =
     (running start nodes,
      snapshots @ map (\<lambda>i. running start (take (Suc i) nodes)) (image_positions nodes))"
proof (induction nodes rule: rev_induct)
  case Nil
  then show ?case by (simp add: running_def image_positions_def)
next
  case (snoc node nodes)
  let ?f = "\<lambda>i. running start (take (Suc i) nodes)"
  let ?g = "\<lambda>i. running start (take (Suc i) (nodes @ [node]))"
  have earlier: "map ?g (image_positions nodes) = map ?f (image_positions nodes)"
    by (rule map_cong) (auto dest: image_positions_bound)
  have "fold visit (nodes @ [node]) (start, snapshots)
        = visit node (running start nodes, snapshots @ map ?f (image_positions nodes))"
    using snoc.IH by simp
  also have "\<dots> = (running start (nodes @ [node]),
                   (snapshots @ map ?f (image_positions nodes))
                   @ (if is_image node then [running start (nodes @ [node])] else []))"
    by (rule visit_running)
  also have "(snapshots @ map ?f (image_positions nodes))
                   @ (if is_image node then [running start (nodes @ [node])] else [])
             = snapshots @ map ?g (image_positions (nodes @ [node]))"
    unfolding image_positions_snoc map_append earlier by simp
  finally show ?case .
qed

lemma running_image:
  "i < length nodes \<Longrightarrow> is_image (nodes ! i) \<Longrightarrow>
   running start (take (Suc i) nodes) = running start (take i nodes)"
  by (simp add: take_Suc_conv_app_nth running_snoc image_not_heading)

text \<open>
  C6. For every image element of a document, in document order, the walk of the
  resolver (the running value of the last heading seen, snapshot at each image) gives
  the trimmed text of the nearest heading element h1 to h6 among the nodes that come
  before the image in the pre-order, depth-first traversal of the whole document, and
  the empty string when no heading comes before it.
\<close>

theorem resolver_output:
  "nearest_headings document =
     map (\<lambda>i. heading_before (take i (preorder document)))
       (image_positions (preorder document))"
proof -
  have "map (\<lambda>i. running [] (take (Suc i) (preorder document)))
          (image_positions (preorder document))
        = map (\<lambda>i. heading_before (take i (preorder document)))
          (image_positions (preorder document))"
  proof (rule map_cong)
    fix i assume "i \<in> set (image_positions (preorder document))"
    then have "i < length (preorder document)" "is_image (preorder document ! i)"
      by (simp_all add: image_positions_def)
    then show "running [] (take (Suc i) (preorder document))
               = heading_before (take i (preorder document))"
      by (simp add: running_image) (simp add: running_def heading_before_def)
  qed simp
  then show ?thesis
    by (simp add: nearest_headings_def walk_fold fold_visit)
qed

lemma example_walk: "nearest_headings example_document = [[], ''Team'', ''Gallery'']"
  by (simp add: nearest_headings_def example_document_def visit_def trim_def is_space_def)

theorem resolver_output_witness:
  "map (\<lambda>i. heading_before (take i (preorder example_document)))
     (image_positions (preorder example_document)) = [[], ''Team'', ''Gallery'']"
  using resolver_output [of example_document] example_walk by simp

subsection \<open>The canonical URL\<close>

lemma lower_char_idem: "lower_char (lower_char c) = lower_char c"
proof (cases "65 \<le> (of_char c :: nat) \<and> (of_char c :: nat) \<le> 90")
  case True
  define n :: nat where "n = of_char c"
  have n: "65 \<le> n" "n \<le> 90" using True by (simp_all add: n_def)
  have "(of_char (char_of (n + 32)) :: nat) = (n + 32) mod 256"
    by (rule of_char_of)
  also have "\<dots> = n + 32" using n by simp
  finally have up: "(of_char (char_of (n + 32)) :: nat) = n + 32" .
  have first: "lower_char c = char_of (n + 32)"
    using n by (simp add: lower_char_def Let_def n_def)
  have "lower_char (char_of (n + 32)) = char_of (n + 32)"
    unfolding lower_char_def Let_def up using n by simp
  with first show ?thesis by simp
next
  case False
  then have "lower_char c = c"
    by (auto simp add: lower_char_def Let_def)
  then show ?thesis by simp
qed

lemma lower_idem: "lower (lower s) = lower s"
  by (simp add: lower_def lower_char_idem)

lemma normalize_path_idem: "normalize_path (normalize_path p) = normalize_path p"
proof -
  define q where "q = rev (dropWhile (\<lambda>c. c = CHR ''/'') (rev p))"
  have root: "normalize_path ''/'' = ''/''"
    by (simp add: normalize_path_def)
  have again: "rev (dropWhile (\<lambda>c. c = CHR ''/'') (rev q)) = q"
    by (simp add: q_def)
  show ?thesis
  proof (cases "q = []")
    case True
    then have "normalize_path p = ''/''"
      unfolding normalize_path_def Let_def q_def [symmetric] by simp
    with root show ?thesis by simp
  next
    case False
    then have "normalize_path p = q"
      unfolding normalize_path_def Let_def q_def [symmetric] by simp
    moreover from False have "normalize_path q = q"
      unfolding normalize_path_def Let_def again by simp
    ultimately show ?thesis by simp
  qed
qed

lemma canonical_idem: "canonical (canonical u) = canonical u"
  by (simp add: canonical_def lower_idem normalize_path_idem)

lemma resolve_absolute: "resolve base (as_reference u) = u"
  by (simp add: resolve_def as_reference_def)

lemma canonical_key_absolute: "canonical_key base (Some (as_reference u)) = Some (canonical u)"
  by (simp add: canonical_key_def normalize_url_def resolve_absolute)

lemma normalize_path_slash: "normalize_path (p @ ''/'') = normalize_path p"
  by (simp add: normalize_path_def)

lemma normalize_Inr:
  "normalize_url base link = Inr (key, absolute) \<Longrightarrow> key = canonical absolute"
  by (cases link) (auto simp add: normalize_url_def Let_def)

lemma canonical_key_Some:
  "canonical_key base link = Some key \<Longrightarrow> canonical key = key"
  by (cases link) (auto simp add: canonical_key_def normalize_url_def Let_def canonical_idem)

lemma resolve_fragment:
  "resolve base (r\<lparr>ref_fragment := f\<rparr>) = (resolve base r)\<lparr>url_fragment := f\<rparr>"
  by (simp add: resolve_def split: option.splits)

lemma canonical_fragment: "canonical (u\<lparr>url_fragment := f\<rparr>) = canonical u"
  by (simp add: canonical_def)

lemma canonical_slash: "canonical (u\<lparr>url_path := url_path u @ ''/''\<rparr>) = canonical u"
  by (simp add: canonical_def normalize_path_slash)

text \<open>
  C7. Normalizing a link and then normalizing the key (or the absolute URL) it gave,
  against any base, gives the same key again; and two URLs that differ only in the
  fragment, or only in a slash at the end of the path, have the same key.
\<close>

theorem canonicalization_idempotent:
  "(canonical_key base link = Some key \<longrightarrow>
      canonical_key base' (Some (as_reference key)) = Some key)
   \<and> (normalize_url base link = Inr (key, absolute) \<longrightarrow>
      canonical_key base' (Some (as_reference absolute)) = Some key)
   \<and> canonical_key base (Some (r\<lparr>ref_fragment := f\<rparr>)) = canonical_key base (Some r)
   \<and> canonical_key base (Some (as_reference (u\<lparr>url_fragment := f\<rparr>)))
       = canonical_key base' (Some (as_reference u))
   \<and> canonical_key base (Some (as_reference (u\<lparr>url_path := url_path u @ ''/''\<rparr>)))
       = canonical_key base' (Some (as_reference u))"
proof (intro conjI impI)
  assume "canonical_key base link = Some key"
  then show "canonical_key base' (Some (as_reference key)) = Some key"
    by (simp add: canonical_key_absolute canonical_key_Some)
next
  assume "normalize_url base link = Inr (key, absolute)"
  then show "canonical_key base' (Some (as_reference absolute)) = Some key"
    by (auto simp add: canonical_key_absolute dest: normalize_Inr)
next
  show "canonical_key base (Some (r\<lparr>ref_fragment := f\<rparr>)) = canonical_key base (Some r)"
    by (simp add: canonical_key_def normalize_url_def Let_def resolve_fragment canonical_fragment)
next
  show "canonical_key base (Some (as_reference (u\<lparr>url_fragment := f\<rparr>)))
       = canonical_key base' (Some (as_reference u))"
    by (simp only: canonical_key_absolute canonical_fragment)
next
  show "canonical_key base (Some (as_reference (u\<lparr>url_path := url_path u @ ''/''\<rparr>)))
       = canonical_key base' (Some (as_reference u))"
    by (simp only: canonical_key_absolute canonical_slash)
qed

lemma lower_examples:
  "lower ''https'' = ''https''" "lower ''example.com'' = ''example.com''"
  "lower ''other.com'' = ''other.com''"
  "lower ''HTTPS'' = ''https''" "lower ''Example.COM'' = ''example.com''"
  by code_simp+

lemma example_link_key: "canonical_key example_about (Some example_link) = Some example_seed"
  by (simp add: canonical_key_def normalize_url_def resolve_def example_link_def
      canonical_def lower_examples normalize_path_def example_seed_def)

theorem canonicalization_idempotent_witness:
  "canonical_key example_about (Some example_link) = Some example_seed
   \<and> canonical_key example_other (Some (as_reference example_seed)) = Some example_seed"
  using canonicalization_idempotent [of example_about "Some example_link" example_seed
      example_other] example_link_key
  by simp

subsection \<open>The crawl loop ends\<close>

lemma enqueue_cases:
  "enqueue cfg (key, absolute) st = st
   \<or> (url_host key = url_host (canonical (seedURL cfg)) \<and> key \<notin> set (visited st)
      \<and> length (visited st) < maxPages cfg
      \<and> enqueue cfg (key, absolute) st
          = st\<lparr>frontier := frontier st @ [\<lparr>entry_url = key, entry_rawURL = absolute\<rparr>],
                visited := visited st @ [key]\<rparr>)"
  by (simp add: enqueue_def)

lemma enqueue_bound: "turns_bound cfg (enqueue cfg candidate st) \<le> turns_bound cfg st"
proof -
  obtain key absolute where c: "candidate = (key, absolute)" by (cases candidate)
  show ?thesis
    using enqueue_cases [of cfg key absolute st] unfolding c
    by (auto simp add: turns_bound_def budget_left_def)
qed

lemma enqueue_link_bound: "turns_bound cfg (enqueue_link cfg base link st) \<le> turns_bound cfg st"
  by (simp add: enqueue_link_def enqueue_bound split: sum.splits)

lemma fold_enqueue_link_bound:
  "turns_bound cfg (fold (enqueue_link cfg base) ls st) \<le> turns_bound cfg st"
proof (induction ls arbitrary: st)
  case Nil
  then show ?case by simp
next
  case (Cons l ls)
  have "turns_bound cfg (fold (enqueue_link cfg base) ls (enqueue_link cfg base l st))
        \<le> turns_bound cfg (enqueue_link cfg base l st)"
    by (rule Cons.IH)
  also have "\<dots> \<le> turns_bound cfg st" by (rule enqueue_link_bound)
  finally show ?case by simp
qed

lemma on_success_bound: "turns_bound cfg (on_success cfg entry pg st) \<le> turns_bound cfg st"
proof -
  have "turns_bound cfg (on_success cfg entry pg st)
        \<le> turns_bound cfg (st\<lparr>mirror := mirror st @
              [\<lparr>page_url = entry_url entry, page_sourceURL = entry_rawURL entry,
                page_bytes = body pg\<rparr>]\<rparr>)"
    unfolding on_success_def by (rule fold_enqueue_link_bound)
  also have "\<dots> = turns_bound cfg st"
    by (simp add: turns_bound_def budget_left_def)
  finally show ?thesis .
qed

lemma on_failure_bound: "turns_bound cfg (on_failure entry st) = turns_bound cfg st"
  by (simp add: on_failure_def turns_bound_def budget_left_def)

lemma dequeue_bound:
  "dequeue st = Some (entry, st1) \<Longrightarrow> turns_bound cfg st1 < turns_bound cfg st"
  by (auto simp add: dequeue_def turns_bound_def budget_left_def split: list.splits)

lemma dequeue_Some: "frontier st \<noteq> [] \<Longrightarrow> \<exists>entry st1. dequeue st = Some (entry, st1)"
  by (simp add: dequeue_def split: list.splits)

lemma fetch_page_parts:
  "fetch_page fetch u st = (fetch u, st\<lparr>requests := requests st @ [u]\<rparr>)"
  by (simp add: fetch_page_def)

text \<open>A turn, written out for a frontier that is not empty.\<close>

lemma crawl_turn_Cons:
  assumes "frontier st = entry # rest"
  shows "crawl_turn fetch cfg st =
     (case fetch (entry_rawURL entry) of
        None \<Rightarrow>
          on_failure entry
            (st\<lparr>frontier := rest, requests := requests st @ [entry_rawURL entry]\<rparr>)
      | Some pg \<Rightarrow>
          on_success cfg entry pg
            (st\<lparr>frontier := rest, requests := requests st @ [entry_rawURL entry]\<rparr>))"
  using assms
  by (simp add: crawl_turn_def dequeue_def fetch_page_def split: option.splits)

lemma crawl_turn_Nil: "frontier st = [] \<Longrightarrow> crawl_turn fetch cfg st = st"
  by (simp add: crawl_turn_def dequeue_def)

lemma crawl_turn_decreases:
  assumes "frontier st \<noteq> []"
  shows "turns_bound cfg (crawl_turn fetch cfg st) < turns_bound cfg st"
proof -
  from assms obtain entry rest where f: "frontier st = entry # rest"
    by (cases "frontier st") auto
  let ?st2 = "st\<lparr>frontier := rest, requests := requests st @ [entry_rawURL entry]\<rparr>"
  have less: "turns_bound cfg ?st2 < turns_bound cfg st"
    using f by (simp add: turns_bound_def budget_left_def)
  show ?thesis
  proof (cases "fetch (entry_rawURL entry)")
    case None
    then have "crawl_turn fetch cfg st = on_failure entry ?st2"
      by (simp add: crawl_turn_Cons [OF f])
    with less show ?thesis by (simp add: on_failure_bound)
  next
    case (Some pg)
    then have "crawl_turn fetch cfg st = on_success cfg entry pg ?st2"
      by (simp add: crawl_turn_Cons [OF f])
    with less on_success_bound [of cfg entry pg ?st2] show ?thesis by simp
  qed
qed

termination crawl_loop
  by (relation "measure (\<lambda>(fetch, cfg, st). turns_bound cfg st)")
     (auto intro: crawl_turn_decreases)

subsection \<open>The scenario\<close>

lemma canonical_examples:
  "canonical example_seed = example_seed"
  "canonical example_about = example_about"
  "canonical example_other = example_other"
  by (simp_all add: canonical_def example_seed_def example_about_def example_other_def
      lower_examples normalize_path_def)

lemma example_distinct:
  "example_seed \<noteq> example_about" "example_about \<noteq> example_seed"
  "url_host example_seed = ''example.com''" "url_host example_about = ''example.com''"
  "url_host example_other = ''other.com''"
  by (simp_all add: example_seed_def example_about_def example_other_def)

lemma resolve_about:
  "resolve example_seed \<lparr>ref_scheme = None, ref_host = None, ref_path = ''/about'',
                             ref_query = None, ref_fragment = None\<rparr> = example_about"
  by (simp add: resolve_def example_seed_def example_about_def)

lemma example_crawl: "crawl example_fetch example_cfg = Inr example_states"
  by (simp add: crawl_def example_cfg_def example_states_def enqueue_def dequeue_def
      initial_state_def canonical_examples example_distinct example_fetch_def
      on_success_def on_failure_def enqueue_link_def normalize_url_def resolve_about
      resolve_absolute crawl_turn_def fetch_page_def Let_def)

subsection \<open>The chain of states\<close>

lemma crawl_loop_chain:
  "crawl_loop fetch cfg st \<noteq> []
   \<and> crawl_loop fetch cfg st ! 0 = st
   \<and> frontier (last (crawl_loop fetch cfg st)) = []
   \<and> (\<forall>i. Suc i < length (crawl_loop fetch cfg st) \<longrightarrow>
         frontier (crawl_loop fetch cfg st ! i) \<noteq> []
         \<and> crawl_loop fetch cfg st ! Suc i = crawl_turn fetch cfg (crawl_loop fetch cfg st ! i))"
proof (induction fetch cfg st rule: crawl_loop.induct)
  case (1 fetch cfg st)
  show ?case
  proof (cases "frontier st = []")
    case True
    then have "crawl_loop fetch cfg st = [st]"
      by (subst crawl_loop.simps) simp
    with True show ?thesis by (simp del: crawl_loop.simps)
  next
    case False
    let ?rest = "crawl_loop fetch cfg (crawl_turn fetch cfg st)"
    have unfold: "crawl_loop fetch cfg st = st # ?rest"
      using False by (subst crawl_loop.simps) (simp del: crawl_loop.simps)
    have IH: "?rest \<noteq> [] \<and> ?rest ! 0 = crawl_turn fetch cfg st
        \<and> frontier (last ?rest) = []
        \<and> (\<forall>i. Suc i < length ?rest \<longrightarrow>
              frontier (?rest ! i) \<noteq> [] \<and> ?rest ! Suc i = crawl_turn fetch cfg (?rest ! i))"
      using "1.IH" [OF False] .
    have step: "\<forall>i. Suc i < length (st # ?rest) \<longrightarrow>
         frontier ((st # ?rest) ! i) \<noteq> []
         \<and> (st # ?rest) ! Suc i = crawl_turn fetch cfg ((st # ?rest) ! i)"
    proof (intro allI impI)
      fix i assume i: "Suc i < length (st # ?rest)"
      show "frontier ((st # ?rest) ! i) \<noteq> []
         \<and> (st # ?rest) ! Suc i = crawl_turn fetch cfg ((st # ?rest) ! i)"
      proof (cases i)
        case 0
        with False IH show ?thesis by (simp del: crawl_loop.simps)
      next
        case (Suc j)
        with i IH show ?thesis by (simp del: crawl_loop.simps)
      qed
    qed
    from IH step show ?thesis
      unfolding unfold by (simp del: crawl_loop.simps)
  qed
qed

lemma crawl_first_turn:
  assumes d: "dequeue st = Some (entry, st1)"
  shows "frontier st \<noteq> []"
    and "fetch (entry_rawURL entry) = Some pg \<Longrightarrow>
         crawl_turn fetch cfg st
         = on_success cfg entry pg (snd (fetch_page fetch (entry_rawURL entry) st1))"
  using d by (auto simp add: crawl_turn_def fetch_page_def dequeue_def split: list.splits)

lemma crawl_chain:
  assumes "crawl fetch cfg = Inr states"
  shows "states \<noteq> []
   \<and> states ! 0 = enqueue cfg (canonical (seedURL cfg), seedURL cfg) initial_state
   \<and> frontier (last states) = []
   \<and> (\<forall>i. Suc i < length states \<longrightarrow>
         frontier (states ! i) \<noteq> []
         \<and> states ! Suc i = crawl_turn fetch cfg (states ! i))"
proof -
  define st0 where "st0 = enqueue cfg (canonical (seedURL cfg), seedURL cfg) initial_state"
  show ?thesis
  proof (cases "dequeue st0")
    case None
    then have "frontier st0 = []"
      by (simp add: dequeue_def split: list.splits)
    moreover from None assms have "states = [st0]"
      by (simp add: crawl_def st0_def [symmetric] del: crawl_loop.simps)
    ultimately show ?thesis
      by (simp add: st0_def)
  next
    case (Some pair)
    then obtain entry st1 where d: "dequeue st0 = Some (entry, st1)"
      by (cases pair) simp
    note first = crawl_first_turn [OF d]
    have nonempty: "frontier st0 \<noteq> []" by (rule first(1))
    from assms d obtain pg where f: "fetch (entry_rawURL entry) = Some pg"
      by (cases "fetch (entry_rawURL entry)")
         (simp_all add: crawl_def st0_def [symmetric] fetch_page_def del: crawl_loop.simps)
    let ?st2 = "snd (fetch_page fetch (entry_rawURL entry) st1)"
    let ?rest = "crawl_loop fetch cfg (on_success cfg entry pg ?st2)"
    from assms d f have states: "states = st0 # ?rest"
      by (simp add: crawl_def st0_def [symmetric] fetch_page_def del: crawl_loop.simps)
    have turn: "crawl_turn fetch cfg st0 = on_success cfg entry pg ?st2"
      using f by (rule first(2))
    have chain: "?rest \<noteq> [] \<and> ?rest ! 0 = crawl_turn fetch cfg st0
        \<and> frontier (last ?rest) = []
        \<and> (\<forall>i. Suc i < length ?rest \<longrightarrow>
              frontier (?rest ! i) \<noteq> [] \<and> ?rest ! Suc i = crawl_turn fetch cfg (?rest ! i))"
      using crawl_loop_chain [of fetch cfg "on_success cfg entry pg ?st2"] turn
      by (simp del: crawl_loop.simps)
    have step: "\<forall>i. Suc i < length (st0 # ?rest) \<longrightarrow>
         frontier ((st0 # ?rest) ! i) \<noteq> []
         \<and> (st0 # ?rest) ! Suc i = crawl_turn fetch cfg ((st0 # ?rest) ! i)"
    proof (intro allI impI)
      fix i assume i: "Suc i < length (st0 # ?rest)"
      show "frontier ((st0 # ?rest) ! i) \<noteq> []
         \<and> (st0 # ?rest) ! Suc i = crawl_turn fetch cfg ((st0 # ?rest) ! i)"
      proof (cases i)
        case 0
        with nonempty chain show ?thesis by (simp del: crawl_loop.simps)
      next
        case (Suc j)
        with i chain show ?thesis by (simp del: crawl_loop.simps)
      qed
    qed
    from chain step show ?thesis
      unfolding states by (simp add: st0_def del: crawl_loop.simps)
  qed
qed

text \<open>A property of the first state that every turn keeps holds in every state.\<close>

lemma crawl_invariant:
  assumes run: "crawl fetch cfg = Inr states"
    and init: "P (enqueue cfg (canonical (seedURL cfg), seedURL cfg) initial_state)"
    and turn: "\<And>st. P st \<Longrightarrow> P (crawl_turn fetch cfg st)"
  shows "\<forall>st \<in> set states. P st"
proof -
  note chain = crawl_chain [OF run]
  have "i < length states \<Longrightarrow> P (states ! i)" for i
  proof (induction i)
    case 0
    with chain init show ?case by simp
  next
    case (Suc i)
    then have "P (states ! i)" by simp
    then have "P (crawl_turn fetch cfg (states ! i))" by (rule turn)
    with chain Suc.prems show ?case by simp
  qed
  then show ?thesis
    by (auto simp add: in_set_conv_nth)
qed

subsection \<open>What the operations keep\<close>

lemma normalize_url_candidate:
  "normalize_url base link = Inr candidate \<Longrightarrow>
   \<exists>absolute. candidate = (canonical absolute, absolute)"
  by (cases link) (auto simp add: normalize_url_def Let_def)

lemma fold_enqueue_link_keeps:
  assumes "\<And>absolute st. P st \<Longrightarrow> P (enqueue cfg (canonical absolute, absolute) st)"
    and "P st"
  shows "P (fold (enqueue_link cfg base) ls st)"
  using assms(2)
proof (induction ls arbitrary: st)
  case Nil
  then show ?case by simp
next
  case (Cons l ls)
  have "P (enqueue_link cfg base l st)"
  proof (cases "normalize_url base l")
    case (Inl e)
    with Cons.prems show ?thesis by (simp add: enqueue_link_def)
  next
    case (Inr candidate)
    then obtain absolute where "candidate = (canonical absolute, absolute)"
      using normalize_url_candidate by blast
    with Inr Cons.prems assms(1) show ?thesis by (simp add: enqueue_link_def)
  qed
  then show ?case
    using Cons.IH by simp
qed


lemma enqueue_same_origin:
  "same_origin cfg st \<Longrightarrow> same_origin cfg (enqueue cfg (canonical absolute, absolute) st)"
  using enqueue_cases [of cfg "canonical absolute" absolute st]
  by (auto simp add: same_origin_def)

lemma enqueue_fifo_order:
  "fifo_order st \<Longrightarrow> fifo_order (enqueue cfg (canonical absolute, absolute) st)"
  using enqueue_cases [of cfg "canonical absolute" absolute st]
  by (auto simp add: fifo_order_def)

lemma enqueue_records:
  "mirror (enqueue cfg candidate st) = mirror st
   \<and> failures (enqueue cfg candidate st) = failures st
   \<and> requests (enqueue cfg candidate st) = requests st"
  by (cases candidate) (simp add: enqueue_def)

lemma fold_enqueue_link_records:
  "mirror (fold (enqueue_link cfg base) ls st) = mirror st
   \<and> failures (fold (enqueue_link cfg base) ls st) = failures st
   \<and> requests (fold (enqueue_link cfg base) ls st) = requests st"
proof -
  let ?P = "\<lambda>s. mirror s = mirror st \<and> failures s = failures st \<and> requests s = requests st"
  have "?P (fold (enqueue_link cfg base) ls st)"
    by (rule fold_enqueue_link_keeps) (simp_all add: enqueue_records)
  then show ?thesis .
qed

lemma on_success_records:
  "mirror (on_success cfg entry pg st) =
     mirror st @ [\<lparr>page_url = entry_url entry, page_sourceURL = entry_rawURL entry,
                   page_bytes = body pg\<rparr>]
   \<and> failures (on_success cfg entry pg st) = failures st
   \<and> requests (on_success cfg entry pg st) = requests st"
  by (simp add: on_success_def fold_enqueue_link_records)

text \<open>Every turn fetches the entry at the head of the frontier and records the outcome.\<close>

lemma crawl_turn_fetches:
  "frontier st \<noteq> [] \<Longrightarrow> turn_fetches fetch st (crawl_turn fetch cfg st)"
proof -
  assume "frontier st \<noteq> []"
  then obtain entry rest where f: "frontier st = entry # rest"
    by (cases "frontier st") auto
  show ?thesis
  proof (cases "fetch (entry_rawURL entry)")
    case None
    then show ?thesis
      by (simp add: turn_fetches_def f crawl_turn_Cons [OF f] on_failure_def)
  next
    case (Some pg)
    then show ?thesis
      by (simp add: turn_fetches_def f crawl_turn_Cons [OF f] on_success_records)
  qed
qed

lemma crawl_turn_keeps:
  assumes enq: "\<And>absolute st. P st \<Longrightarrow> P (enqueue cfg (canonical absolute, absolute) st)"
    and failed: "\<And>entry rest st. P st \<Longrightarrow> frontier st = entry # rest \<Longrightarrow>
        P (on_failure entry
            (st\<lparr>frontier := rest, requests := requests st @ [entry_rawURL entry]\<rparr>))"
    and fetched: "\<And>entry rest (pg :: fetched_page) st. P st \<Longrightarrow> frontier st = entry # rest \<Longrightarrow>
        P (st\<lparr>frontier := rest,
              requests := requests st @ [entry_rawURL entry],
              mirror := mirror st @
                [\<lparr>page_url = entry_url entry, page_sourceURL = entry_rawURL entry,
                  page_bytes = body pg\<rparr>]\<rparr>)"
    and P: "P st"
  shows "P (crawl_turn fetch cfg st)"
proof (cases "frontier st")
  case Nil
  with P show ?thesis by (simp add: crawl_turn_Nil)
next
  case (Cons entry rest)
  show ?thesis
  proof (cases "fetch (entry_rawURL entry)")
    case None
    with failed [OF P Cons] show ?thesis by (simp add: crawl_turn_Cons [OF Cons])
  next
    case (Some pg)
    have "P (fold (enqueue_link cfg (entry_rawURL entry)) (links pg)
                   (st\<lparr>frontier := rest,
                      requests := requests st @ [entry_rawURL entry],
                      mirror := mirror st @
                        [\<lparr>page_url = entry_url entry, page_sourceURL = entry_rawURL entry,
                          page_bytes = body pg\<rparr>]\<rparr>))"
      using enq fetched [OF P Cons, of pg] by (rule fold_enqueue_link_keeps)
    with Some show ?thesis
      by (simp add: crawl_turn_Cons [OF Cons] on_success_def)
  qed
qed


lemma crawl_turn_same_origin:
  "same_origin cfg st \<Longrightarrow> same_origin cfg (crawl_turn fetch cfg st)"
proof (rule crawl_turn_keeps)
  fix absolute s assume "same_origin cfg s"
  then show "same_origin cfg (enqueue cfg (canonical absolute, absolute) s)"
    by (rule enqueue_same_origin)
next
  fix entry rest s
  assume "same_origin cfg s" "frontier s = entry # rest"
  then show "same_origin cfg
         (on_failure entry
           (s\<lparr>frontier := rest, requests := requests s @ [entry_rawURL entry]\<rparr>))"
    by (auto simp add: same_origin_def on_failure_def)
next
  fix entry rest and pg :: fetched_page and s
  assume "same_origin cfg s" "frontier s = entry # rest"
  then show "same_origin cfg
               (s\<lparr>frontier := rest, requests := requests s @ [entry_rawURL entry],
                    mirror := mirror s @
                      [\<lparr>page_url = entry_url entry, page_sourceURL = entry_rawURL entry,
                         page_bytes = body pg\<rparr>]\<rparr>)"
    by (auto simp add: same_origin_def)
qed

lemma crawl_turn_fifo_order:
  "fifo_order st \<Longrightarrow> fifo_order (crawl_turn fetch cfg st)"
proof (rule crawl_turn_keeps)
  fix absolute s assume "fifo_order s"
  then show "fifo_order (enqueue cfg (canonical absolute, absolute) s)"
    by (rule enqueue_fifo_order)
next
  fix entry rest s
  assume "fifo_order s" "frontier s = entry # rest"
  then show "fifo_order
         (on_failure entry
           (s\<lparr>frontier := rest, requests := requests s @ [entry_rawURL entry]\<rparr>))"
    by (auto simp add: fifo_order_def on_failure_def)
next
  fix entry rest and pg :: fetched_page and s
  assume "fifo_order s" "frontier s = entry # rest"
  then show "fifo_order
               (s\<lparr>frontier := rest, requests := requests s @ [entry_rawURL entry],
                    mirror := mirror s @
                      [\<lparr>page_url = entry_url entry, page_sourceURL = entry_rawURL entry,
                         page_bytes = body pg\<rparr>]\<rparr>)"
    by (auto simp add: fifo_order_def)
qed





lemma initial_same_origin: "same_origin cfg initial_state"
  by (simp add: same_origin_def initial_state_def)


subsection \<open>At the budget\<close>




subsection \<open>The seed\<close>

lemma crawl_seed:
  assumes "0 < maxPages cfg"
  shows "crawl fetch cfg = Inl FetchFailed \<longleftrightarrow> fetch (seedURL cfg) = None"
  using assms
  by (auto simp add: crawl_def Let_def enqueue_def initial_state_def dequeue_def
      fetch_page_def simp del: crawl_loop.simps split: option.splits)

lemma crawl_Inl: "crawl fetch cfg = Inl e \<Longrightarrow> e = FetchFailed"
  by (auto simp add: crawl_def Let_def fetch_page_def simp del: crawl_loop.simps
      split: option.splits)

lemma crawl_status_seed:
  assumes "0 < maxPages cfg"
  shows "crawl_site_status (crawl fetch cfg) = (if fetch (seedURL cfg) = None then 1 else 0)"
proof (cases "crawl fetch cfg")
  case (Inl e)
  then have "crawl fetch cfg = Inl FetchFailed" using crawl_Inl by blast
  with crawl_seed [OF assms, of fetch] Inl show ?thesis
    by (simp add: crawl_site_status_def)
next
  case (Inr states)
  with crawl_seed [OF assms, of fetch] show ?thesis
    by (simp add: crawl_site_status_def)
qed

subsection \<open>The budget and the origin\<close>



lemma crawl_same_origin_states:
  assumes run: "crawl fetch cfg = Inr states"
  shows "\<forall>st \<in> set states. same_origin cfg st"
proof -
  have "same_origin cfg (enqueue cfg (canonical (seedURL cfg), seedURL cfg) initial_state)"
    using initial_same_origin by (rule enqueue_same_origin)
  with run show ?thesis
    by (rule crawl_invariant) (rule crawl_turn_same_origin)
qed


lemma crawl_turns_fetch:
  assumes run: "crawl fetch cfg = Inr states"
  shows "\<forall>i. Suc i < length states \<longrightarrow> turn_fetches fetch (states ! i) (states ! Suc i)"
proof (intro allI impI)
  fix i assume "Suc i < length states"
  with crawl_chain [OF run]
  have "frontier (states ! i) \<noteq> []" "states ! Suc i = crawl_turn fetch cfg (states ! i)"
    by simp_all
  then show "turn_fetches fetch (states ! i) (states ! Suc i)"
    by (simp add: crawl_turn_fetches)
qed




lemma enqueue_foreign:
  "url_host key \<noteq> url_host (canonical (seedURL cfg)) \<Longrightarrow> enqueue cfg (key, absolute) st = st"
  by (simp add: enqueue_def)

lemma enqueue_link_foreign:
  assumes "normalize_url base link = Inr (key, absolute)"
    and "url_host key \<noteq> url_host (canonical (seedURL cfg))"
  shows "enqueue_link cfg base link st = st"
  using assms by (simp add: enqueue_link_def enqueue_foreign)

text \<open>
  C5. In every state of a crawl, every entry of the frontier carries the canonical form
  of its own raw URL, and that URL, every member of the Visited Set, every URL fetched
  so far, every page mirrored and every failure recorded has the host of the seed URL.
  The URLs fetched are the raw URLs of the entries at the head of the frontier, one
  per turn, and no others. So a URL whose host differs from the seed's is, in no state
  of the crawl, the raw URL of an entry of the frontier, a member of the Visited Set,
  among the URLs fetched or the source of a mirrored page. A link the normalizer
  resolves to such a URL leaves the state as it is: it is not enqueued.
\<close>

theorem crawl_same_origin:
  "(crawl fetch cfg = Inr states \<longrightarrow>
      (\<forall>st \<in> set states. same_origin cfg st)
    \<and> (\<forall>st \<in> set states. \<forall>entry \<in> set (frontier st).
          entry_url entry = canonical (entry_rawURL entry)
          \<and> url_host (canonical (entry_rawURL entry)) = url_host (canonical (seedURL cfg)))
    \<and> (\<forall>st \<in> set states. \<forall>u \<in> set (requests st).
          url_host (canonical u) = url_host (canonical (seedURL cfg)))
    \<and> (\<forall>i. Suc i < length states \<longrightarrow>
          turn_fetches fetch (states ! i) (states ! Suc i))
    \<and> (\<forall>st \<in> set states. \<forall>u.
          url_host (canonical u) \<noteq> url_host (canonical (seedURL cfg)) \<longrightarrow>
            u \<notin> entry_rawURL ` set (frontier st) \<and> canonical u \<notin> set (visited st)
            \<and> u \<notin> set (requests st) \<and> u \<notin> page_sourceURL ` set (mirror st)))
   \<and> (normalize_url base link = Inr (key, absolute)
        \<and> url_host key \<noteq> url_host (canonical (seedURL cfg)) \<longrightarrow>
          key = canonical absolute \<and> enqueue_link cfg base link st = st)"
proof (intro conjI impI)
  assume run: "crawl fetch cfg = Inr states"
  note inv = crawl_same_origin_states [OF run]
  from inv show "\<forall>st \<in> set states. same_origin cfg st" .
  show "\<forall>st \<in> set states. \<forall>entry \<in> set (frontier st).
          entry_url entry = canonical (entry_rawURL entry)
          \<and> url_host (canonical (entry_rawURL entry)) = url_host (canonical (seedURL cfg))"
  proof (intro ballI)
    fix st entry assume "st \<in> set states" and entry: "entry \<in> set (frontier st)"
    with inv have "same_origin cfg st" by blast
    with entry have "entry_url entry = canonical (entry_rawURL entry)
        \<and> url_host (entry_url entry) = url_host (canonical (seedURL cfg))"
      unfolding same_origin_def by blast
    then show "entry_url entry = canonical (entry_rawURL entry)
          \<and> url_host (canonical (entry_rawURL entry)) = url_host (canonical (seedURL cfg))"
      by auto
  qed
  from inv show "\<forall>st \<in> set states. \<forall>u \<in> set (requests st).
          url_host (canonical u) = url_host (canonical (seedURL cfg))"
    by (simp add: same_origin_def)
  show "\<forall>i. Suc i < length states \<longrightarrow> turn_fetches fetch (states ! i) (states ! Suc i)"
    using run by (rule crawl_turns_fetch)
  show "\<forall>st \<in> set states. \<forall>u.
          url_host (canonical u) \<noteq> url_host (canonical (seedURL cfg)) \<longrightarrow>
            u \<notin> entry_rawURL ` set (frontier st) \<and> canonical u \<notin> set (visited st)
            \<and> u \<notin> set (requests st) \<and> u \<notin> page_sourceURL ` set (mirror st)"
  proof (intro ballI allI impI)
    fix st u
    assume st: "st \<in> set states"
      and foreign: "url_host (canonical u) \<noteq> url_host (canonical (seedURL cfg))"
    from inv st have so: "same_origin cfg st" by blast
    from so foreign have "u \<notin> entry_rawURL ` set (frontier st)"
      by (auto simp add: same_origin_def)
    moreover from so foreign have "canonical u \<notin> set (visited st)"
      by (auto simp add: same_origin_def)
    moreover from so foreign have "u \<notin> set (requests st)"
      by (auto simp add: same_origin_def)
    moreover from so foreign have "u \<notin> page_sourceURL ` set (mirror st)"
      by (auto simp add: same_origin_def)
    ultimately show "u \<notin> entry_rawURL ` set (frontier st) \<and> canonical u \<notin> set (visited st)
            \<and> u \<notin> set (requests st) \<and> u \<notin> page_sourceURL ` set (mirror st)"
      by simp
  qed
next
  assume a: "normalize_url base link = Inr (key, absolute)
        \<and> url_host key \<noteq> url_host (canonical (seedURL cfg))"
  then show "key = canonical absolute"
    using normalize_url_candidate [of base link "(key, absolute)"] by simp
next
  assume a: "normalize_url base link = Inr (key, absolute)
        \<and> url_host key \<noteq> url_host (canonical (seedURL cfg))"
  then show "enqueue_link cfg base link st = st"
    using enqueue_link_foreign by blast
qed

theorem crawl_same_origin_witness:
  "list_all (same_origin example_cfg) example_states
   \<and> map page_url (mirror (last example_states)) = [example_seed, example_about]
   \<and> example_other \<notin> set (requests (last example_states))
   \<and> enqueue_link example_cfg example_seed (Some (as_reference example_other))
        (example_states ! 1) = example_states ! 1"
proof -
  have other: "normalize_url example_seed (Some (as_reference example_other))
               = Inr (example_other, example_other)"
    by (simp add: normalize_url_def resolve_absolute canonical_examples)
  have differs: "url_host example_other \<noteq> url_host (canonical (seedURL example_cfg))"
    by (simp add: example_cfg_def canonical_examples example_distinct)
  from crawl_same_origin [of example_fetch example_cfg example_states example_seed
      "Some (as_reference example_other)" example_other example_other "example_states ! 1"]
    example_crawl other differs
  have "\<forall>st \<in> set example_states. same_origin example_cfg st"
    and "enqueue_link example_cfg example_seed (Some (as_reference example_other))
        (example_states ! 1) = example_states ! 1"
    by blast+
  then show ?thesis
    by (simp add: list_all_iff) (simp add: example_states_def example_distinct
        example_seed_def example_about_def example_other_def)
qed

subsection \<open>A crawl step that fails\<close>

lemma two_elements: "length xs = 2 \<Longrightarrow> xs = [xs ! 0, xs ! 1]"
  by (rule nth_equalityI) (auto simp add: less_Suc_eq numeral_2_eq_2)

lemma crawl_step_position:
  "i < 8 \<Longrightarrow> wrapper_commands argv ! i = crawl_step argv \<Longrightarrow> i = 1"
proof -
  assume "i < 8" and at: "wrapper_commands argv ! i = crawl_step argv"
  then have "i = 0 \<or> i = 1 \<or> i = 2 \<or> i = 3 \<or> i = 4 \<or> i = 5 \<or> i = 6 \<or> i = 7"
    by arith
  then show ?thesis
    using at by (elim disjE) (simp_all add: wrapper_commands_def step_facts)
qed

lemma extract_in_trace:
  assumes run: "extract_site_images exec argv w = (status, trace, w')"
  shows "extract_step \<in> fst ` set trace \<longleftrightarrow> 4 < length trace"
proof -
  have "extract_step \<in> fst ` set trace \<longleftrightarrow> extract_step \<in> set (steps_run trace)"
    by (simp add: steps_run_def step_facts)
  also have "\<dots> \<longleftrightarrow> 4 < length trace"
    by (simp add: wrapper_steps_run [OF run] step_facts)
  finally show ?thesis .
qed

lemma trace_reaches_iff:
  assumes run: "extract_site_images exec argv w = (status, trace, w')" and n: "n < 8"
  shows "n < length trace \<longleftrightarrow> (\<forall>i<n. status_at exec argv w i = 0)"
proof
  assume reach: "n < length trace"
  note facts = wrapper_run [OF run]
  show "\<forall>i<n. status_at exec argv w i = 0"
  proof (intro allI impI)
    fix i assume "i < n"
    with reach have "Suc i < length trace" by simp
    with facts(3,4) show "status_at exec argv w i = 0" by simp
  qed
next
  assume "\<forall>i<n. status_at exec argv w i = 0"
  with trace_reaches [OF run n] show "n < length trace" by simp
qed

lemma crawl_status_aborts:
  assumes run: "extract_site_images exec argv w = (status, trace, w')"
    and failed: "status_at exec argv w 1 \<noteq> 0"
  shows "status \<noteq> 0 \<and> extract_step \<notin> fst ` set trace
       \<and> (status_at exec argv w 0 = 0 \<longrightarrow>
            status = status_at exec argv w 1
            \<and> trace = [(wrapper_commands argv ! 0, 0), (crawl_step argv, status)])"
proof -
  note facts = wrapper_run [OF run]
  have short: "\<not> 2 < length trace"
  proof
    assume "2 < length trace"
    with facts(3,4) have "status_at exec argv w 1 = 0" by simp
    with failed show False by simp
  qed
  then have not_whole: "length trace \<noteq> 8" and "\<not> 4 < length trace" by simp_all
  with facts(8) extract_in_trace [OF run]
  have abort: "status \<noteq> 0" "extract_step \<notin> fst ` set trace" by simp_all
  have "status = status_at exec argv w 1
      \<and> trace = [(wrapper_commands argv ! 0, 0), (crawl_step argv, status)]"
    if echo: "status_at exec argv w 0 = 0"
  proof -
    from echo have "\<forall>i<1. status_at exec argv w i = 0" by simp
    with trace_reaches [OF run, of 1]
    have one: "1 < length trace" "trace ! 1 = (crawl_step argv, status_at exec argv w 1)"
      by (simp_all add: wrapper_nth)
    with short have len: "length trace = 2" by simp
    from trace_reaches [OF run, of 0] echo
    have zero: "trace ! 0 = (wrapper_commands argv ! 0, 0)" by simp
    from len facts(1) have "last trace = trace ! 1" by (simp add: last_conv_nth)
    with facts(7) one have st: "status = status_at exec argv w 1" by simp
    from two_elements [OF len] zero one st
    have "trace = [(wrapper_commands argv ! 0, 0), (crawl_step argv, status)]" by simp
    with st show ?thesis by simp
  qed
  with abort show ?thesis by simp
qed

lemma crawl_step_in_trace:
  assumes run: "extract_site_images exec argv w = (status, trace, w')"
    and ran: "(crawl_step argv, st) \<in> set trace"
  shows "status_at exec argv w 0 = 0 \<and> status_at exec argv w 1 = st"
proof -
  note facts = wrapper_run [OF run]
  from ran obtain i where i: "i < length trace" and at: "trace ! i = (crawl_step argv, st)"
    by (auto simp add: in_set_conv_nth)
  have "wrapper_commands argv ! i = take (length trace) (wrapper_commands argv) ! i"
    using i by simp
  also have "\<dots> = map fst trace ! i" using facts(2) by simp
  also have "\<dots> = crawl_step argv" using i at by simp
  finally have cmd: "wrapper_commands argv ! i = crawl_step argv" .
  from i facts(6) have "i < 8" by simp
  then have one: "i = 1" using cmd by (rule crawl_step_position)
  with i facts(3) at have "status_at exec argv w 1 = st" by auto
  moreover from one i facts(3,4) have "status_at exec argv w 0 = 0" by simp
  ultimately show ?thesis by simp
qed

lemma crawler_exec_status:
  "status_at crawler_exec [] network i =
     (if wrapper_commands [] ! i = crawl_step []
      then crawl_site_status (crawl (world_after crawler_exec (take i (wrapper_commands [])) network)
             (wrapper_config parse_default []))
      else 0)"
  by (simp add: status_at_def crawler_exec_def)

lemma crawler_exec_world: "world_after crawler_exec cs network = network"
  by (induction cs) (simp_all add: world_after_Nil world_after_Cons crawler_exec_def)

text \<open>
  C3. The extract step is invoked exactly when the four commands before it, the crawl
  step among them, exit with status 0; in a run that invokes it the crawl step ran
  before it with status 0. If the crawl step fails (the status \<open>exec\<close> gives it, in the
  world the first echo leaves, is not zero), the run exits with a status that is not
  zero and the extract step is not invoked; the status is that of the crawl step,
  which is the last command that ran, when the echo before it succeeded. In particular
  so when the crawl step is the crawler of the specification on a network \<open>fetch\<close>
  (its status is \<open>crawl_site_status\<close> of the crawl from the site URL) and fetching the
  seed URL fails: the crawl fails fatally, the status of the crawl step is not zero,
  the run exits with a status that is not zero and the extract step is not invoked.
\<close>

theorem crawl_failure_aborts:
  assumes run: "extract_site_images exec argv w = (status, trace, w')"
  shows "(extract_step \<in> fst ` set trace \<longleftrightarrow> (\<forall>i<4. status_at exec argv w i = 0))
   \<and> (extract_step \<in> fst ` set trace \<longrightarrow>
        4 < length trace \<and> trace ! 1 = (crawl_step argv, 0)
        \<and> trace ! 4 = (extract_step, status_at exec argv w 4))
   \<and> (status_at exec argv w 1 \<noteq> 0 \<longrightarrow>
        status \<noteq> 0 \<and> extract_step \<notin> fst ` set trace
        \<and> (status_at exec argv w 0 = 0 \<longrightarrow>
             status = status_at exec argv w 1
             \<and> trace = [(wrapper_commands argv ! 0, 0), (crawl_step argv, status)]))
   \<and> (status_at exec argv w 1 = crawl_site_status (crawl fetch (wrapper_config parse_url argv))
        \<and> fetch (seedURL (wrapper_config parse_url argv)) = None \<longrightarrow>
          crawl fetch (wrapper_config parse_url argv) = Inl FetchFailed
          \<and> status_at exec argv w 1 \<noteq> 0
          \<and> status \<noteq> 0 \<and> extract_step \<notin> fst ` set trace)
   \<and> (\<forall>st. st \<noteq> 0 \<and> (crawl_step argv, st) \<in> set trace \<longrightarrow>
          status = st \<and> extract_step \<notin> fst ` set trace)"
proof -
  have runs: "extract_step \<in> fst ` set trace \<longleftrightarrow> (\<forall>i<4. status_at exec argv w i = 0)"
    using extract_in_trace [OF run] trace_reaches_iff [OF run, of 4] by simp
  have after: "extract_step \<in> fst ` set trace \<longrightarrow>
        4 < length trace \<and> trace ! 1 = (crawl_step argv, 0)
        \<and> trace ! 4 = (extract_step, status_at exec argv w 4)"
  proof
    assume "extract_step \<in> fst ` set trace"
    with runs have ok: "\<forall>i<4. status_at exec argv w i = 0" by simp
    then have "\<forall>i<1. status_at exec argv w i = 0" and "status_at exec argv w 1 = 0"
      by simp_all
    with trace_reaches [OF run, of 1] have "trace ! 1 = (crawl_step argv, 0)"
      by (simp add: wrapper_nth)
    moreover from trace_reaches [OF run, of 4] ok
    have "4 < length trace \<and> trace ! 4 = (extract_step, status_at exec argv w 4)"
      by (simp add: wrapper_nth)
    ultimately show "4 < length trace \<and> trace ! 1 = (crawl_step argv, 0)
        \<and> trace ! 4 = (extract_step, status_at exec argv w 4)" by simp
  qed
  have aborts: "status_at exec argv w 1 \<noteq> 0 \<longrightarrow>
        status \<noteq> 0 \<and> extract_step \<notin> fst ` set trace
        \<and> (status_at exec argv w 0 = 0 \<longrightarrow>
             status = status_at exec argv w 1
             \<and> trace = [(wrapper_commands argv ! 0, 0), (crawl_step argv, status)])"
    using crawl_status_aborts [OF run] by blast
  have seed: "status_at exec argv w 1
                = crawl_site_status (crawl fetch (wrapper_config parse_url argv))
        \<and> fetch (seedURL (wrapper_config parse_url argv)) = None \<longrightarrow>
          crawl fetch (wrapper_config parse_url argv) = Inl FetchFailed
          \<and> status_at exec argv w 1 \<noteq> 0
          \<and> status \<noteq> 0 \<and> extract_step \<notin> fst ` set trace"
  proof
    assume a: "status_at exec argv w 1
                = crawl_site_status (crawl fetch (wrapper_config parse_url argv))
        \<and> fetch (seedURL (wrapper_config parse_url argv)) = None"
    have pages: "0 < maxPages (wrapper_config parse_url argv)"
      by (simp add: wrapper_config_def)
    from crawl_seed [OF pages, of fetch] a
    have fatal: "crawl fetch (wrapper_config parse_url argv) = Inl FetchFailed" by simp
    with a have failed: "status_at exec argv w 1 \<noteq> 0"
      by (simp add: crawl_site_status_def)
    with aborts fatal
    show "crawl fetch (wrapper_config parse_url argv) = Inl FetchFailed
          \<and> status_at exec argv w 1 \<noteq> 0
          \<and> status \<noteq> 0 \<and> extract_step \<notin> fst ` set trace" by simp
  qed
  have ran: "\<forall>st. st \<noteq> 0 \<and> (crawl_step argv, st) \<in> set trace \<longrightarrow>
          status = st \<and> extract_step \<notin> fst ` set trace"
  proof (intro allI impI)
    fix st assume a: "st \<noteq> 0 \<and> (crawl_step argv, st) \<in> set trace"
    then have at: "status_at exec argv w 0 = 0" "status_at exec argv w 1 = st"
      using crawl_step_in_trace [OF run] by blast+
    with a have "status_at exec argv w 1 \<noteq> 0" by simp
    with aborts at(1)
    have "status = status_at exec argv w 1 \<and> extract_step \<notin> fst ` set trace" by blast
    with at(2) show "status = st \<and> extract_step \<notin> fst ` set trace" by simp
  qed
  from runs after aborts seed ran show ?thesis by blast
qed

theorem crawl_failure_aborts_witness:
  "fst (extract_site_images crawler_exec [] network_down) \<noteq> 0
   \<and> extract_step \<notin> fst ` set (fst (snd (extract_site_images crawler_exec [] network_down)))
   \<and> extract_step \<in> fst ` set (fst (snd (extract_site_images crawler_exec [] network_up)))"
proof -
  obtain st tr u where bad: "extract_site_images crawler_exec [] network_down = (st, tr, u)"
    by (cases "extract_site_images crawler_exec [] network_down")
  have tie: "status_at crawler_exec [] network_down 1
             = crawl_site_status (crawl network_down (wrapper_config parse_default []))"
    by (simp add: crawler_exec_status crawler_exec_world wrapper_nth)
  have down: "network_down (seedURL (wrapper_config parse_default [])) = None"
    by (simp add: network_down_def)
  obtain st' tr' u' where good: "extract_site_images crawler_exec [] network_up = (st', tr', u')"
    by (cases "extract_site_images crawler_exec [] network_up")
  have pages: "0 < maxPages (wrapper_config parse_default [])"
    by (simp add: wrapper_config_def)
  have ok: "\<forall>i<4. status_at crawler_exec [] network_up i = 0"
    by (simp add: crawler_exec_status crawler_exec_world crawl_status_seed [OF pages]
        network_up_def)
  from crawl_failure_aborts [OF bad, of network_down parse_default] tie down
  have "st \<noteq> 0 \<and> extract_step \<notin> fst ` set tr"
    by blast
  moreover from crawl_failure_aborts [OF good] ok
  have "extract_step \<in> fst ` set tr'"
    by blast
  ultimately show ?thesis
    by (simp add: bad good)
qed

end
